theory Spec2Isabelle
  imports Main "HOL-Library.Multiset"
begin

section \<open>Data model of the source loader\<close>

text \<open>
  The development embeds \<^verbatim>\<open>source/driver/SourceLoader.cpp\<close>. Paths
  (\<^verbatim>\<open>std::filesystem::path\<close>) and names are strings. A
  \<^verbatim>\<open>std::error_code\<close> is its integer value; the test \<^verbatim>\<open>if (ec)\<close> is
  \<open>ec \<noteq> 0\<close>. A \<^verbatim>\<open>const SourceLibrary*\<close> is \<open>None\<close> for the null pointer and
  \<open>Some name\<close> otherwise: \<^verbatim>\<open>getOrAddLibrary\<close> keeps one object per name, so two
  pointers are equal exactly when the names are. The rank returned by \<^verbatim>\<open>svGlob\<close> is a
  natural number, smaller meaning higher precedence.

  The header that declares \<^verbatim>\<open>FileEntry\<close>, \<^verbatim>\<open>LoadResult\<close> and the members of the
  loader is not among the source files. The records below have the fields the code reads
  and writes; the constructor of \<^verbatim>\<open>FileEntry\<close> takes the path, the library-file flag, the
  library and the rank, and leaves \<^verbatim>\<open>secondLib\<close> null.
\<close>

type_synonym error_code = int
type_synonym GlobRank = nat

datatype GlobMode = Files | Directories

record FileEntry =
  path :: string
  isLibraryFile :: bool
  library :: "string option"
  libraryRank :: GlobRank
  secondLib :: "string option"

text \<open>The members of a parsed library map, as \<^verbatim>\<open>addLibraryMaps\<close> switches on them.
  An include statement carries the text of its file path token, a library declaration its
  name and the texts of its file path tokens.\<close>

datatype LibraryMapMember =
    ConfigDeclaration
  | EmptyMember
  | LibraryIncludeStatement string
  | LibraryDeclaration string "string list"
  | OtherMember

record SourceLoader =
  fileEntries :: "FileEntry list"
  fileIndex :: "string \<Rightarrow> nat option"
  searchDirectories :: "string list"
  searchExtensions :: "string list"
  uniqueExtensions :: "string set"
  libraries :: "string set"
  libraryMapTrees :: "LibraryMapMember list list"
  errors :: "(string \<times> error_code) list"

record SourceBuffer =
  bufData :: string
  bufLibrary :: "string option"
  bufFile :: string

text \<open>A syntax tree with the metadata the loader reads: the names of the module
  declarations of \<^verbatim>\<open>nodeMap\<close>, the names of the class declarations, the globally
  instantiated names, the class package names, the package names of every import
  declaration, the interface port type names, and the macros the tree defines.\<close>

record SyntaxTree =
  isLibrary :: bool
  nodeMap :: "string list"
  classDecls :: "string list"
  globalInstances :: "string list"
  classPackageNames :: "string list"
  packageImports :: "string list list"
  interfacePorts :: "string list"
  definedMacros :: "string list"

record SourceOptions =
  numThreads :: "nat option"
  singleUnit :: bool
  onlyLint :: bool
  librariesInheritMacros :: bool

text \<open>The collaborators the loader calls and the constant it reads from its header:
  glob expansion (returning the rank, the paths found and the error code), the path
  operations of the standard library, the parser entry points (already applied to the
  option bag), the threshold \<^verbatim>\<open>MinFilesForThreading\<close>, and the hash set container:
  \<open>hashRank names name\<close> is the position at which a \<^verbatim>\<open>flat_hash_set\<close> that received the
  elements \<open>names\<close> yields the element \<open>name\<close> when it is iterated over.\<close>

record externals =
  svGlob :: "string \<Rightarrow> string \<Rightarrow> GlobMode \<Rightarrow> bool \<Rightarrow> GlobRank \<times> string list \<times> error_code"
  path_append :: "string \<Rightarrow> string \<Rightarrow> string"
  replace_extension :: "string \<Rightarrow> string \<Rightarrow> string"
  parent_path :: "string \<Rightarrow> string"
  fromBuffer :: "SourceBuffer \<Rightarrow> string list \<Rightarrow> SyntaxTree"
  fromBuffers :: "SourceBuffer list \<Rightarrow> SyntaxTree"
  fromLibraryMapBuffer :: "SourceBuffer \<Rightarrow> LibraryMapMember list"
  MinFilesForThreading :: nat
  hashRank :: "string list \<Rightarrow> string \<Rightarrow> nat"

text \<open>Modelled from the spec: the macros \<^verbatim>\<open>SLANG_ASSERT\<close> and \<^verbatim>\<open>SLANG_UNREACHABLE\<close>
  are defined outside the source files. The spec treats a violated assertion as "a
  programming-contract failure (not a recoverable user error)": the call stops there and
  returns nothing. The ways in which a call can stop are a failed assertion, a null tree
  pointer that is dereferenced, and a statement marked unreachable that is reached.\<close>

datatype failure = AssertionFailed | NullDereference | Unreachable

section \<open>The source manager\<close>

text \<open>Modelled from the spec: the source manager (\<^verbatim>\<open>SourceManager::readSource\<close> and
  \<^verbatim>\<open>SourceManager::isCached\<close>) is not among the source files. The spec describes a
  filesystem-read cache "tracking which canonical paths have already been read", consulted
  before every discovery-round read. The filesystem is a finite table from paths to file
  contents; reading a path that is in the table succeeds and records the path in the cache,
  reading any other path fails with the code of a missing file.\<close>

record SourceManager =
  files :: "(string \<times> string) list"
  cache :: "string set"

text \<open>Modelled from the spec: the error code of a read that fails, that of a missing file.\<close>

definition no_such_file :: error_code where
  "no_such_file = 2"

text \<open>Modelled from the spec: \<^verbatim>\<open>SourceManager::readSource(path, library)\<close>, which is
  not among the source files. It returns the buffer or the error code, and the source
  manager with the path recorded as read when the read succeeded.\<close>

definition readSource ::
  "SourceManager \<Rightarrow> string \<Rightarrow> string option \<Rightarrow> (error_code + SourceBuffer) \<times> SourceManager" where
  "readSource sm p lib =
     (case map_of (files sm) p of
        None \<Rightarrow> (Inl no_such_file, sm)
      | Some text \<Rightarrow>
          (Inr \<lparr>bufData = text, bufLibrary = lib, bufFile = p\<rparr>,
           sm\<lparr>cache := insert p (cache sm)\<rparr>))"

text \<open>Modelled from the spec: \<^verbatim>\<open>SourceManager::isCached(path)\<close>, which is not among
  the source files: whether the path has already been read.\<close>

definition isCached :: "SourceManager \<Rightarrow> string \<Rightarrow> bool" where
  "isCached sm p = (p \<in> cache sm)"

section \<open>Registration\<close>

text \<open>\<^verbatim>\<open>widen\<close> turns a narrow string into the string type of paths; both are strings
  here.\<close>

definition widen :: "string \<Rightarrow> string" where
  "widen s = s"

text \<open>The loader iterates over three hash sets of strings: the default extensions in its
  constructor, and the two sets of missing names of the discovery loop. A
  \<^verbatim>\<open>flat_hash_set\<close> yields every element once, in an order of its own that the loader does
  not control. A set that is iterated over is kept as the list of its elements without
  repetition, in the order in which they were inserted, and \<open>hashOrder\<close> is the order in
  which the iteration yields them: the elements sorted by the position the container gives
  them, which is arbitrary.\<close>

definition hashOrder :: "externals \<Rightarrow> string list \<Rightarrow> string list" where
  "hashOrder x names = sort_key (hashRank x names) names"

text \<open>The constructor: the two default extensions are put into \<^verbatim>\<open>uniqueExtensions\<close>
  and the search extensions are filled by iterating over that set, so they come in the
  order the set yields them.\<close>

definition SourceLoader_init :: "externals \<Rightarrow> SourceLoader" where
  "SourceLoader_init x =
     \<lparr>fileEntries = [], fileIndex = (\<lambda>_. None), searchDirectories = [],
      searchExtensions = map widen (hashOrder x [''.v'', ''.sv'']),
      uniqueExtensions = {''.v'', ''.sv''},
      libraries = {}, libraryMapTrees = [], errors = []\<rparr>"

definition getOrAddLibrary :: "string \<Rightarrow> SourceLoader \<Rightarrow> string option \<times> SourceLoader" where
  "getOrAddLibrary name s =
     (if name = [] then (None, s)
      else (Some name, s\<lparr>libraries := insert name (libraries s)\<rparr>))"

text \<open>The body of the loop of \<^verbatim>\<open>addFilesInternal\<close> over the paths the glob found: the
  operation the spec calls \<^verbatim>\<open>register(path, isLibraryFile, library, rank)\<close>.\<close>

definition registerFile ::
  "bool \<Rightarrow> string option \<Rightarrow> nat \<Rightarrow> SourceLoader \<Rightarrow> string \<Rightarrow> SourceLoader" where
  "registerFile isLib lib rank s p =
     (case fileIndex s p of
        None \<Rightarrow>
          s\<lparr>fileIndex := (fileIndex s)(p \<mapsto> length (fileEntries s)),
            fileEntries := fileEntries s @
              [\<lparr>path = p, isLibraryFile = isLib, library = lib, libraryRank = rank,
                secondLib = None\<rparr>]\<rparr>
      | Some i \<Rightarrow>
          (let entry = fileEntries s ! i;
               entry1 = entry\<lparr>isLibraryFile := isLibraryFile entry \<and> isLib\<rparr>;
               entry2 =
                 (if lib = None then entry1
                  else if library entry1 = None \<or> rank < libraryRank entry1
                    then entry1\<lparr>library := lib, libraryRank := rank\<rparr>
                  else if rank = libraryRank entry1 then entry1\<lparr>secondLib := lib\<rparr>
                  else entry1)
           in s\<lparr>fileEntries := (fileEntries s)[i := entry2]\<rparr>))"

definition addFilesInternal ::
  "externals \<Rightarrow> string \<Rightarrow> string \<Rightarrow> bool \<Rightarrow> string option \<Rightarrow> bool \<Rightarrow> SourceLoader \<Rightarrow> SourceLoader" where
  "addFilesInternal x pattern basePath isLib lib expandEnvVars s =
     (case svGlob x basePath pattern Files expandEnvVars of
        (rank, found, ec) \<Rightarrow>
          if ec \<noteq> 0 then s\<lparr>errors := errors s @ [(widen pattern, ec)]\<rparr>
          else foldl (registerFile isLib lib rank) s found)"

definition addFiles :: "externals \<Rightarrow> string \<Rightarrow> SourceLoader \<Rightarrow> SourceLoader" where
  "addFiles x pattern s = addFilesInternal x pattern [] False None False s"

definition addLibraryFiles :: "externals \<Rightarrow> string \<Rightarrow> string \<Rightarrow> SourceLoader \<Rightarrow> SourceLoader" where
  "addLibraryFiles x libName pattern s =
     (case getOrAddLibrary libName s of
        (lib, s1) \<Rightarrow> addFilesInternal x pattern [] True lib False s1)"

definition addSearchDirectories :: "externals \<Rightarrow> string \<Rightarrow> SourceLoader \<Rightarrow> SourceLoader" where
  "addSearchDirectories x pattern s =
     (case svGlob x [] pattern Directories False of
        (rank, directories, ec) \<Rightarrow>
          if ec \<noteq> 0 then s\<lparr>errors := errors s @ [(widen pattern, ec)]\<rparr>
          else s\<lparr>searchDirectories := searchDirectories s @ directories\<rparr>)"

definition addSearchExtension :: "string \<Rightarrow> SourceLoader \<Rightarrow> SourceLoader" where
  "addSearchExtension extension s =
     (if extension \<in> uniqueExtensions s then s
      else s\<lparr>uniqueExtensions := insert extension (uniqueExtensions s),
             searchExtensions := searchExtensions s @ [widen extension]\<rparr>)"

definition getPathFromSpec :: "string \<Rightarrow> string" where
  "getPathFromSpec p = (if length p < 3 then [] else take (length p - 2) (drop 1 p))"

definition createLibrary ::
  "externals \<Rightarrow> string \<Rightarrow> string list \<Rightarrow> string \<Rightarrow> SourceLoader \<Rightarrow> SourceLoader" where
  "createLibrary x libName filePaths basePath s =
     (if libName = [] then s
      else (case getOrAddLibrary libName s of
        (lib, s1) \<Rightarrow>
          foldl (\<lambda>acc filePath.
                   (let spec = getPathFromSpec filePath
                    in if spec = [] then acc
                       else addFilesInternal x spec basePath True lib True acc))
                s1 filePaths))"

text \<open>\<^verbatim>\<open>addLibraryMaps\<close> calls itself for every include statement and the source has no
  guard against maps that include each other, so the model carries the number of nested
  includes it may still follow; \<open>None\<close> means that this number was used up. The glob and
  its error branch come first, as in the source, and use none of it. A loop iteration runs
  only while the call has neither stopped nor used up its includes.\<close>

definition whileRunning ::
  "(failure + 'a) option \<Rightarrow> ('a \<Rightarrow> (failure + 'a) option) \<Rightarrow> (failure + 'a) option" where
  "whileRunning acc f =
     (case acc of None \<Rightarrow> None | Some (Inl e) \<Rightarrow> Some (Inl e) | Some (Inr v) \<Rightarrow> f v)"

fun addLibraryMaps ::
  "nat \<Rightarrow> externals \<Rightarrow> string \<Rightarrow> string \<Rightarrow> bool \<Rightarrow> SourceLoader \<times> SourceManager
     \<Rightarrow> (failure + SourceLoader \<times> SourceManager) option" where
  "addLibraryMaps depth x pattern basePath expandEnvVars (s, sm) =
     (case svGlob x basePath pattern Files expandEnvVars of
        (rank, found, ec) \<Rightarrow>
          if ec \<noteq> 0 then Some (Inr (s\<lparr>errors := errors s @ [(widen pattern, ec)]\<rparr>, sm))
          else
            foldl (\<lambda>acc p. whileRunning acc (\<lambda>(s1, sm1).
              case readSource sm1 p None of
                (Inl code, sm2) \<Rightarrow> Some (Inr (s1\<lparr>errors := errors s1 @ [(p, code)]\<rparr>, sm2))
              | (Inr buffer, sm2) \<Rightarrow>
                  (let tree = fromLibraryMapBuffer x buffer;
                       s2 = s1\<lparr>libraryMapTrees := libraryMapTrees s1 @ [tree]\<rparr>;
                       parentPath = parent_path x p
                   in foldl (\<lambda>acc2 member. whileRunning acc2 (\<lambda>(s3, sm3).
                        case member of
                          ConfigDeclaration \<Rightarrow> Some (Inr (s3, sm3))
                        | EmptyMember \<Rightarrow> Some (Inr (s3, sm3))
                        | LibraryIncludeStatement filePath \<Rightarrow>
                            (let spec = getPathFromSpec filePath
                             in if spec = [] then Some (Inr (s3, sm3))
                                else (case depth of
                                        0 \<Rightarrow> None
                                      | Suc d \<Rightarrow> addLibraryMaps d x spec parentPath True (s3, sm3)))
                        | LibraryDeclaration name filePaths \<Rightarrow>
                            Some (Inr (createLibrary x name filePaths parentPath s3, sm3))
                        | OtherMember \<Rightarrow> Some (Inl Unreachable)))
                      (Some (Inr (s2, sm2))) tree)))
              (Some (Inr (s, sm))) found)"

section \<open>Loading and parsing\<close>

text \<open>\<^verbatim>\<open>LoadResult\<close> is a variant of a tree pointer, a buffer with the flag
  \<^verbatim>\<open>isDeferredLib\<close>, and a file entry with an error code. A shared pointer to a tree is
  \<open>None\<close> when null; a default-constructed \<^verbatim>\<open>LoadResult\<close> is \<open>LoadedTree None\<close>.\<close>

datatype LoadResult =
    LoadedTree "SyntaxTree option"
  | LoadedBuffer SourceBuffer bool
  | LoadError FileEntry error_code

definition loadAndParse ::
  "externals \<Rightarrow> FileEntry \<Rightarrow> SourceOptions \<Rightarrow> SourceManager
     \<Rightarrow> (failure + LoadResult) \<times> SourceManager" where
  "loadAndParse x entry srcOptions sm =
     (case readSource sm (path entry) (library entry) of
        (Inl code, sm1) \<Rightarrow> (Inr (LoadError entry code), sm1)
      | (Inr buffer, sm1) \<Rightarrow>
          if \<not> isLibraryFile entry \<and> singleUnit srcOptions
            then (Inr (LoadedBuffer buffer False), sm1)
          else if librariesInheritMacros srcOptions
            then (if isLibraryFile entry then (Inr (LoadedBuffer buffer True), sm1)
                  else (Inl AssertionFailed, sm1))
          else
            (let tree = fromBuffer x buffer [];
                 tree1 = (if isLibraryFile entry \<or> onlyLint srcOptions
                          then tree\<lparr>isLibrary := True\<rparr> else tree)
             in (Inr (LoadedTree (Some tree1)), sm1)))"

text \<open>The local variables of \<^verbatim>\<open>loadAndParseSources\<close> that its two lambdas capture,
  together with the loader's error list, which \<^verbatim>\<open>handleLoadResult\<close> appends to.\<close>

record Locals =
  syntaxTrees :: "SyntaxTree option list"
  singleUnitBuffers :: "SourceBuffer list"
  deferredLibBuffers :: "SourceBuffer list"
  inheritedMacros :: "string list"
  errorList :: "(string \<times> error_code) list"

definition handleLoadResult :: "Locals \<Rightarrow> LoadResult \<Rightarrow> Locals" where
  "handleLoadResult L result =
     (case result of
        LoadedTree t \<Rightarrow> L\<lparr>syntaxTrees := syntaxTrees L @ [t]\<rparr>
      | LoadedBuffer buffer isDeferredLib \<Rightarrow>
          if isDeferredLib then L\<lparr>deferredLibBuffers := deferredLibBuffers L @ [buffer]\<rparr>
          else L\<lparr>singleUnitBuffers := singleUnitBuffers L @ [buffer]\<rparr>
      | LoadError entry code \<Rightarrow> L\<lparr>errorList := errorList L @ [(path entry, code)]\<rparr>)"

definition parseSingleUnit :: "externals \<Rightarrow> SourceOptions \<Rightarrow> SourceBuffer list \<Rightarrow> Locals \<Rightarrow> Locals" where
  "parseSingleUnit x srcOptions buffers L =
     (if buffers = [] then L
      else (let tree = fromBuffers x buffers;
                tree1 = (if onlyLint srcOptions then tree\<lparr>isLibrary := True\<rparr> else tree)
            in L\<lparr>syntaxTrees := syntaxTrees L @ [Some tree1],
                 inheritedMacros := definedMacros tree1\<rparr>))"

definition parseDeferred :: "externals \<Rightarrow> string list \<Rightarrow> SourceBuffer \<Rightarrow> SyntaxTree option" where
  "parseDeferred x macros buffer = Some ((fromBuffer x buffer macros)\<lparr>isLibrary := True\<rparr>)"

subsection \<open>The sequential branch\<close>

fun loadSequential ::
  "externals \<Rightarrow> SourceOptions \<Rightarrow> FileEntry list \<Rightarrow> Locals \<Rightarrow> SourceManager
     \<Rightarrow> failure + Locals \<times> SourceManager" where
  "loadSequential x srcOptions [] L sm = Inr (L, sm)"
| "loadSequential x srcOptions (entry # rest) L sm =
     (case loadAndParse x entry srcOptions sm of
        (Inl f, sm1) \<Rightarrow> Inl f
      | (Inr result, sm1) \<Rightarrow> loadSequential x srcOptions rest (handleLoadResult L result) sm1)"

definition parseSequential ::
  "externals \<Rightarrow> SourceOptions \<Rightarrow> FileEntry list \<Rightarrow> Locals \<Rightarrow> SourceManager
     \<Rightarrow> failure + Locals \<times> SourceManager" where
  "parseSequential x srcOptions entries L sm =
     (case loadSequential x srcOptions entries L sm of
        Inl f \<Rightarrow> Inl f
      | Inr (L1, sm1) \<Rightarrow>
          (let L2 = parseSingleUnit x srcOptions (singleUnitBuffers L1) L1
           in Inr (foldl (\<lambda>acc buffer.
                       acc\<lparr>syntaxTrees := syntaxTrees acc @
                              [parseDeferred x (inheritedMacros acc) buffer]\<rparr>)
                     L2 (deferredLibBuffers L2), sm1)))"

subsection \<open>The thread pool branch\<close>

text \<open>Modelled from the spec: the thread pool is not among the source files. The spec
  has each worker write "into a pre-sized, index-addressed slot corresponding to its
  original file position", with the merge after the barrier. \<^verbatim>\<open>pushLoop\<close> followed by
  \<^verbatim>\<open>waitForAll\<close> runs the loop body once for every index below \<open>n\<close>; the order in which
  the bodies take effect is not fixed, and is given here by the time \<open>when i\<close> at which
  index \<open>i\<close> is served, for an arbitrary \<open>when\<close>.\<close>

definition pushLoop :: "(nat \<Rightarrow> nat) \<Rightarrow> nat \<Rightarrow> nat list" where
  "pushLoop when n = sort_key when [0..<n]"

fun loadSlots ::
  "externals \<Rightarrow> SourceOptions \<Rightarrow> FileEntry list \<Rightarrow> nat list \<Rightarrow> LoadResult list \<Rightarrow> SourceManager
     \<Rightarrow> failure + LoadResult list \<times> SourceManager" where
  "loadSlots x srcOptions entries [] loadResults sm = Inr (loadResults, sm)"
| "loadSlots x srcOptions entries (i # rest) loadResults sm =
     (case loadAndParse x (entries ! i) srcOptions sm of
        (Inl f, sm1) \<Rightarrow> Inl f
      | (Inr result, sm1) \<Rightarrow>
          loadSlots x srcOptions entries rest (loadResults[i := result]) sm1)"

definition parseThreaded ::
  "externals \<Rightarrow> SourceOptions \<Rightarrow> (nat \<Rightarrow> nat) \<Rightarrow> (nat \<Rightarrow> nat) \<Rightarrow> FileEntry list \<Rightarrow> Locals
     \<Rightarrow> SourceManager \<Rightarrow> failure + Locals \<times> SourceManager" where
  "parseThreaded x srcOptions when1 when2 entries L sm =
     (case loadSlots x srcOptions entries (pushLoop when1 (length entries))
             (replicate (length entries) (LoadedTree None)) sm of
        Inl f \<Rightarrow> Inl f
      | Inr (loadResults, sm1) \<Rightarrow>
          (let L1 = foldl handleLoadResult L loadResults;
               L2 = parseSingleUnit x srcOptions (singleUnitBuffers L1) L1;
               numTrees = length (syntaxTrees L2);
               resized = syntaxTrees L2 @ replicate (length (deferredLibBuffers L2)) None
           in Inr (L2\<lparr>syntaxTrees :=
                        foldl (\<lambda>trees i.
                                 trees[i + numTrees :=
                                   parseDeferred x (inheritedMacros L2) (deferredLibBuffers L2 ! i)])
                              resized (pushLoop when2 (length (deferredLibBuffers L2)))\<rparr>, sm1)))"

subsection \<open>Discovery from the search directories\<close>

text \<open>\<^verbatim>\<open>knownNames\<close> is only asked for membership and is a set. The two sets of missing
  names are iterated over; they are lists without repetition, \<^verbatim>\<open>emplace\<close> adding a new name
  at the end. The list records what the set holds; the order in which the loop over the set
  visits the names is \<open>hashOrder\<close> of the list.\<close>

definition emplace :: "string \<Rightarrow> string list \<Rightarrow> string list" where
  "emplace name names = (if name \<in> set names then names else names @ [name])"

definition addKnownNames :: "SyntaxTree \<Rightarrow> string set \<Rightarrow> string set" where
  "addKnownNames tree known =
     foldl (\<lambda>k name. if name = [] then k else insert name k)
       (foldl (\<lambda>k name. if name = [] then k else insert name k) known (nodeMap tree))
       (classDecls tree)"

definition findMissingNames :: "SyntaxTree \<Rightarrow> string set \<Rightarrow> string list \<Rightarrow> string list" where
  "findMissingNames tree known missing =
     (let m1 = foldl (\<lambda>m name. if name \<in> known then m else emplace name m)
                 missing (globalInstances tree);
          m2 = foldl (\<lambda>m name. if name = [] \<or> name \<in> known then m else emplace name m)
                 m1 (classPackageNames tree);
          m3 = foldl (\<lambda>m items.
                        foldl (\<lambda>m' name. if name = [] \<or> name \<in> known then m' else emplace name m')
                          m items)
                 m2 (packageImports tree)
      in foldl (\<lambda>m name. if name \<in> known then m else emplace name m) m3 (interfacePorts tree))"

text \<open>The loop over the extensions for one directory. The path is replaced in place, so
  every extension is put on the path the previous one left behind. The result is the
  buffer found, if any, and the source manager after the reads.\<close>

fun tryExtensions ::
  "externals \<Rightarrow> string \<Rightarrow> string list \<Rightarrow> SourceManager \<Rightarrow> SourceBuffer option \<times> SourceManager" where
  "tryExtensions x p [] sm = (None, sm)"
| "tryExtensions x p (ext # rest) sm =
     (let p1 = replace_extension x p ext
      in if isCached sm p1 then tryExtensions x p1 rest sm
         else (case readSource sm p1 None of
                 (Inr buffer, sm1) \<Rightarrow> (Some buffer, sm1)
               | (Inl code, sm1) \<Rightarrow> tryExtensions x p1 rest sm1))"

fun searchForName ::
  "externals \<Rightarrow> string list \<Rightarrow> string list \<Rightarrow> string \<Rightarrow> SourceManager
     \<Rightarrow> SourceBuffer option \<times> SourceManager" where
  "searchForName x [] exts name sm = (None, sm)"
| "searchForName x (dir # rest) exts name sm =
     (case tryExtensions x (path_append x dir name) exts sm of
        (Some buffer, sm1) \<Rightarrow> (Some buffer, sm1)
      | (None, sm1) \<Rightarrow> searchForName x rest exts name sm1)"

record Discovery =
  loadedTrees :: "SyntaxTree option list"
  knownNames :: "string set"
  nextMissingNames :: "string list"
  sourceManager :: SourceManager

text \<open>The body of the loop over the missing names of one round.\<close>

definition discoverName ::
  "externals \<Rightarrow> SourceLoader \<Rightarrow> string list \<Rightarrow> Discovery \<Rightarrow> string \<Rightarrow> Discovery" where
  "discoverName x s macros d name =
     (case searchForName x (searchDirectories s) (searchExtensions s) name (sourceManager d) of
        (None, sm1) \<Rightarrow> d\<lparr>sourceManager := sm1\<rparr>
      | (Some buffer, sm1) \<Rightarrow>
          (let tree = (fromBuffer x buffer macros)\<lparr>isLibrary := True\<rparr>;
               known = addKnownNames tree (knownNames d)
           in \<lparr>loadedTrees = loadedTrees d @ [Some tree],
               knownNames = known,
               nextMissingNames = findMissingNames tree known (nextMissingNames d),
               sourceManager = sm1\<rparr>))"

partial_function (option) discoverLoop ::
  "externals \<Rightarrow> SourceLoader \<Rightarrow> string list \<Rightarrow> string list \<Rightarrow> Discovery \<Rightarrow> Discovery option" where
  "discoverLoop x s macros missingNames d =
     (let d1 = foldl (discoverName x s macros) d (hashOrder x missingNames)
      in if nextMissingNames d1 = [] then Some d1
         else discoverLoop x s macros (nextMissingNames d1) (d1\<lparr>nextMissingNames := []\<rparr>))"

declare discoverLoop.simps [code]

definition discover ::
  "externals \<Rightarrow> SourceLoader \<Rightarrow> string list \<Rightarrow> SyntaxTree option list \<Rightarrow> SourceManager
     \<Rightarrow> (failure + Discovery) option" where
  "discover x s macros trees sm =
     (if None \<in> set trees then Some (Inl NullDereference)
      else (let known = foldl (\<lambda>k t. addKnownNames (the t) k) {} trees;
                missingNames = foldl (\<lambda>m t. findMissingNames (the t) known m) [] trees
            in map_option Inr
                 (discoverLoop x s macros missingNames
                    \<lparr>loadedTrees = trees, knownNames = known, nextMissingNames = [],
                     sourceManager = sm\<rparr>)))"

subsection \<open>The whole of loadAndParseSources\<close>

definition parseSources ::
  "externals \<Rightarrow> SourceOptions \<Rightarrow> (nat \<Rightarrow> nat) \<Rightarrow> (nat \<Rightarrow> nat) \<Rightarrow> SourceLoader \<Rightarrow> SourceManager
     \<Rightarrow> failure + Locals \<times> SourceManager" where
  "parseSources x srcOptions when1 when2 s sm =
     (let L = \<lparr>syntaxTrees = [], singleUnitBuffers = [], deferredLibBuffers = [],
               inheritedMacros = [], errorList = errors s\<rparr>
      in if MinFilesForThreading x \<le> length (fileEntries s) \<and> numThreads srcOptions \<noteq> Some 1
         then parseThreaded x srcOptions when1 when2 (fileEntries s) L sm
         else parseSequential x srcOptions (fileEntries s) L sm)"

definition loadAndParseSources ::
  "externals \<Rightarrow> SourceOptions \<Rightarrow> (nat \<Rightarrow> nat) \<Rightarrow> (nat \<Rightarrow> nat) \<Rightarrow> SourceLoader \<Rightarrow> SourceManager
     \<Rightarrow> (failure + SyntaxTree option list \<times> SourceLoader \<times> SourceManager) option" where
  "loadAndParseSources x srcOptions when1 when2 s sm =
     (case parseSources x srcOptions when1 when2 s sm of
        Inl f \<Rightarrow> Some (Inl f)
      | Inr (L, sm1) \<Rightarrow>
          if searchDirectories s = [] then Some (Inr (syntaxTrees L, s\<lparr>errors := errorList L\<rparr>, sm1))
          else (case discover x s (inheritedMacros L) (syntaxTrees L) sm1 of
                  None \<Rightarrow> None
                | Some (Inl f) \<Rightarrow> Some (Inl f)
                | Some (Inr d) \<Rightarrow>
                    Some (Inr (loadedTrees d, s\<lparr>errors := errorList L\<rparr>, sourceManager d))))"

section \<open>Notions used to state the properties\<close>

text \<open>The registry is consistent when the index maps every path to the position of the
  entry with that path, and every entry is indexed under its path.\<close>

definition registry_ok :: "SourceLoader \<Rightarrow> bool" where
  "registry_ok s =
     ((\<forall>p i. fileIndex s p = Some i \<longrightarrow> i < length (fileEntries s) \<and> path (fileEntries s ! i) = p) \<and>
      (\<forall>i < length (fileEntries s). fileIndex s (path (fileEntries s ! i)) = Some i))"

text \<open>A sequence of registrations, each with its own flag, library, rank and path, applied
  from left to right.\<close>

definition registerAll :: "SourceLoader \<Rightarrow> (bool \<times> string option \<times> nat \<times> string) list \<Rightarrow> SourceLoader" where
  "registerAll s regs = foldl (\<lambda>acc (isLib, lib, rank, p). registerFile isLib lib rank acc p) s regs"

text \<open>What the loop body does to an entry that is already present.\<close>

definition mergeEntry :: "bool \<Rightarrow> string option \<Rightarrow> nat \<Rightarrow> FileEntry \<Rightarrow> FileEntry" where
  "mergeEntry isLib lib rank entry =
     (let entry1 = entry\<lparr>isLibraryFile := isLibraryFile entry \<and> isLib\<rparr>
      in if lib = None then entry1
         else if library entry1 = None \<or> rank < libraryRank entry1
           then entry1\<lparr>library := lib, libraryRank := rank\<rparr>
         else if rank = libraryRank entry1 then entry1\<lparr>secondLib := lib\<rparr>
         else entry1)"

text \<open>The result of loading one entry, and the source manager after the entries of a list
  have been read: its cache has grown by the paths that could be read.\<close>

definition loadResultOf :: "externals \<Rightarrow> SourceOptions \<Rightarrow> SourceManager \<Rightarrow> FileEntry \<Rightarrow> failure + LoadResult" where
  "loadResultOf x srcOptions sm entry = fst (loadAndParse x entry srcOptions sm)"

definition readPaths :: "SourceManager \<Rightarrow> FileEntry list \<Rightarrow> string set" where
  "readPaths sm entries = {p \<in> path ` set entries. map_of (files sm) p \<noteq> None}"

definition afterReads :: "SourceManager \<Rightarrow> FileEntry list \<Rightarrow> SourceManager" where
  "afterReads sm entries = sm\<lparr>cache := cache sm \<union> readPaths sm entries\<rparr>"

text \<open>The trees, the single-unit buffers, the deferred library buffers and the error records
  among a list of load results, each in the order of the list.\<close>

definition eagerTrees :: "(failure + LoadResult) list \<Rightarrow> SyntaxTree option list" where
  "eagerTrees results = [t. Inr (LoadedTree t) \<leftarrow> results]"

definition singleUnitOf :: "(failure + LoadResult) list \<Rightarrow> SourceBuffer list" where
  "singleUnitOf results = [b. Inr (LoadedBuffer b False) \<leftarrow> results]"

definition deferredOf :: "(failure + LoadResult) list \<Rightarrow> SourceBuffer list" where
  "deferredOf results = [b. Inr (LoadedBuffer b True) \<leftarrow> results]"

definition errorsOf :: "(failure + LoadResult) list \<Rightarrow> (string \<times> error_code) list" where
  "errorsOf results = [(path e, code). Inr (LoadError e code) \<leftarrow> results]"

text \<open>The order of the tree list in the words of the spec: "first eagerly-produced trees in
  file order, then the single synthesized single-unit tree (if any), then each
  deferred-library tree in original file order". The single-unit tree is parsed from all
  single-unit buffers together; the deferred library trees inherit its macros.\<close>

definition expectedTrees ::
  "externals \<Rightarrow> SourceOptions \<Rightarrow> SourceManager \<Rightarrow> FileEntry list \<Rightarrow> SyntaxTree option list" where
  "expectedTrees x srcOptions sm entries =
     (let results = map (\<lambda>e. fst (loadAndParse x e srcOptions sm)) entries;
          single = singleUnitOf results;
          unit = (if onlyLint srcOptions then (fromBuffers x single)\<lparr>isLibrary := True\<rparr>
                  else fromBuffers x single);
          macros = (if single = [] then [] else definedMacros unit)
      in eagerTrees results @ (if single = [] then [] else [Some unit]) @
         map (\<lambda>b. Some ((fromBuffer x b macros)\<lparr>isLibrary := True\<rparr>)) (deferredOf results))"

text \<open>The number of files of the filesystem that have not been read yet.\<close>

definition unread :: "SourceManager \<Rightarrow> nat" where
  "unread sm = card (fst ` set (files sm) - cache sm)"

text \<open>The search in the words of the spec: "search directories in registration order;
  within a directory, try each recognized extension in registration order; the first path
  that (a) is not already cached/loaded and (b) successfully reads is accepted". The
  candidate paths of a name are listed in that order, each extension replacing the one put
  on the path before it, and the first candidate that is neither cached nor unreadable is
  read.\<close>

fun extensionPaths :: "externals \<Rightarrow> string \<Rightarrow> string list \<Rightarrow> string list" where
  "extensionPaths x p [] = []"
| "extensionPaths x p (ext # rest) =
     replace_extension x p ext # extensionPaths x (replace_extension x p ext) rest"

definition candidatePaths :: "externals \<Rightarrow> string list \<Rightarrow> string list \<Rightarrow> string \<Rightarrow> string list" where
  "candidatePaths x dirs exts name =
     concat (map (\<lambda>dir. extensionPaths x (path_append x dir name) exts) dirs)"

definition acceptFirst :: "SourceManager \<Rightarrow> string list \<Rightarrow> SourceBuffer option \<times> SourceManager" where
  "acceptFirst sm candidates =
     (case find (\<lambda>q. \<not> isCached sm q \<and> map_of (files sm) q \<noteq> None) candidates of
        None \<Rightarrow> (None, sm)
      | Some q \<Rightarrow>
          (case readSource sm q None of
             (Inr buffer, sm1) \<Rightarrow> (Some buffer, sm1)
           | (Inl code, sm1) \<Rightarrow> (None, sm1)))"





subsection \<open>A small environment for concrete runs\<close>

text \<open>A glob over a directory holding \<^verbatim>\<open>a.sv\<close> and \<^verbatim>\<open>b.sv\<close>: the pattern
  \<^verbatim>\<open>*.sv\<close> finds both with rank 1, the pattern \<^verbatim>\<open>[\<close> is malformed, and any other
  pattern is an exact path of rank 0. The hash sets of this environment yield \<^verbatim>\<open>.v\<close>
  last and every other element in the order of insertion, so the default extensions come
  as \<^verbatim>\<open>.sv\<close>, \<^verbatim>\<open>.v\<close>. A file's text is \<^verbatim>\<open>name:ref\<close>, declaring the module
  \<^verbatim>\<open>name\<close> and, when \<^verbatim>\<open>ref\<close> is not empty, instantiating \<^verbatim>\<open>ref\<close>.\<close>

definition demo_glob :: "string \<Rightarrow> string \<Rightarrow> GlobMode \<Rightarrow> bool \<Rightarrow> nat \<times> string list \<times> error_code" where
  "demo_glob basePath pattern mode expandEnvVars =
     (if pattern = ''['' then (0, [], 22)
      else if pattern = ''*.sv'' then (1, [''a.sv'', ''b.sv''], 0)
      else (0, [pattern], 0))"

definition demo_tree :: "string \<Rightarrow> SyntaxTree" where
  "demo_tree text =
     \<lparr>isLibrary = False,
      nodeMap = [takeWhile (\<lambda>c. c \<noteq> CHR '':'') text],
      classDecls = [],
      globalInstances =
        (let r = drop 1 (dropWhile (\<lambda>c. c \<noteq> CHR '':'') text) in if r = [] then [] else [r]),
      classPackageNames = [], packageImports = [], interfacePorts = [], definedMacros = []\<rparr>"

definition demo :: externals where
  "demo =
     \<lparr>svGlob = demo_glob,
      path_append = (\<lambda>dir name. dir @ ''/'' @ name),
      replace_extension = (\<lambda>p ext. takeWhile (\<lambda>c. c \<noteq> CHR ''.'') p @ ext),
      parent_path = (\<lambda>p. []),
      fromBuffer = (\<lambda>buffer macros. demo_tree (bufData buffer)),
      fromBuffers = (\<lambda>buffers. demo_tree (concat (map bufData buffers))),
      fromLibraryMapBuffer = (\<lambda>buffer. []),
      MinFilesForThreading = 4,
      hashRank = (\<lambda>names name. if name = ''.v'' then 1 else 0)\<rparr>"

text \<open>Options with every switch off, a filesystem in which \<^verbatim>\<open>top.sv\<close> instantiates
  \<^verbatim>\<open>leaf\<close> and \<^verbatim>\<open>lib/leaf.sv\<close> instantiates \<^verbatim>\<open>ghost\<close>, for which there is no file,
  and a loader with the direct files \<^verbatim>\<open>top.sv\<close> and \<^verbatim>\<open>missing.sv\<close> (which does not
  exist), the files \<^verbatim>\<open>a.sv\<close> and \<^verbatim>\<open>b.sv\<close> of the library L, and the search directory
  \<^verbatim>\<open>lib\<close>.\<close>

definition demo_options :: SourceOptions where
  "demo_options = \<lparr>numThreads = None, singleUnit = False, onlyLint = False,
                    librariesInheritMacros = False\<rparr>"

definition demo_manager :: SourceManager where
  "demo_manager =
     \<lparr>files = [(''top.sv'', ''top:leaf''), (''a.sv'', ''a:''), (''b.sv'', ''b:''),
               (''lib/leaf.sv'', ''leaf:ghost'')],
      cache = {}\<rparr>"

definition demo_loader :: SourceLoader where
  "demo_loader =
     addSearchDirectories demo ''lib''
       (addLibraryFiles demo ''L'' ''*.sv''
         (addFiles demo ''missing.sv'' (addFiles demo ''top.sv'' (SourceLoader_init demo))))"


section \<open>Properties of the file registry\<close>

lemma registry_ok_init: "registry_ok (SourceLoader_init x)"
  by (simp add: registry_ok_def SourceLoader_init_def)

lemma registerFile_unseen:
  "fileIndex s p = None \<Longrightarrow>
   registerFile isLib lib rank s p =
     s\<lparr>fileIndex := (fileIndex s)(p \<mapsto> length (fileEntries s)),
       fileEntries := fileEntries s @
         [\<lparr>path = p, isLibraryFile = isLib, library = lib, libraryRank = rank, secondLib = None\<rparr>]\<rparr>"
  by (simp add: registerFile_def)

lemma registerFile_seen:
  "fileIndex s p = Some i \<Longrightarrow>
   registerFile isLib lib rank s p =
     s\<lparr>fileEntries := (fileEntries s)[i := mergeEntry isLib lib rank (fileEntries s ! i)]\<rparr>"
  by (simp add: registerFile_def mergeEntry_def Let_def)

lemma path_mergeEntry [simp]: "path (mergeEntry isLib lib rank e) = path e"
  by (simp add: mergeEntry_def Let_def)

lemma isLibraryFile_mergeEntry [simp]:
  "isLibraryFile (mergeEntry isLib lib rank e) = (isLibraryFile e \<and> isLib)"
  by (simp add: mergeEntry_def Let_def)

lemma registerFile_ok:
  assumes "registry_ok s"
  shows "registry_ok (registerFile isLib lib rank s p)"
proof (cases "fileIndex s p")
  case None
  have fresh: "\<forall>i < length (fileEntries s). path (fileEntries s ! i) \<noteq> p"
    using assms None by (auto simp: registry_ok_def)
  show ?thesis
    using assms fresh
    by (auto simp: registerFile_unseen [OF None] registry_ok_def nth_append less_Suc_eq)
next
  case (Some i)
  show ?thesis
    using assms Some
    by (auto simp: registerFile_seen [OF Some] registry_ok_def nth_list_update)
qed

lemma registerFile_length:
  "length (fileEntries s) \<le> length (fileEntries (registerFile isLib lib rank s p))"
  by (cases "fileIndex s p") (simp_all add: registerFile_unseen registerFile_seen)

lemma registerFile_index:
  assumes "registry_ok s"
  shows "\<exists>i. fileIndex (registerFile isLib lib rank s p) p = Some i \<and>
             i < length (fileEntries (registerFile isLib lib rank s p))"
  using assms
  by (cases "fileIndex s p") (auto simp: registerFile_unseen registerFile_seen registry_ok_def)

lemma registerFile_flag:
  assumes "registry_ok s" "fileIndex s q = Some j"
  shows "fileIndex (registerFile isLib lib rank s p) q = Some j \<and>
         isLibraryFile (fileEntries (registerFile isLib lib rank s p) ! j) =
           (isLibraryFile (fileEntries s ! j) \<and> (q = p \<longrightarrow> isLib))"
proof (cases "fileIndex s p")
  case None
  then have "q \<noteq> p" using assms by auto
  moreover have "j < length (fileEntries s)" using assms by (auto simp: registry_ok_def)
  ultimately show ?thesis
    using assms by (simp add: registerFile_unseen [OF None] nth_append)
next
  case (Some i)
  have j: "j < length (fileEntries s)" and i: "i < length (fileEntries s)"
    and pj: "path (fileEntries s ! j) = q" and pi: "path (fileEntries s ! i) = p"
    using assms Some by (auto simp: registry_ok_def)
  show ?thesis
  proof (cases "q = p")
    case True
    then have "i = j" using assms Some by simp
    then show ?thesis using True i assms by (simp add: registerFile_seen [OF Some])
  next
    case False
    then have "i \<noteq> j" using pi pj by auto
    then show ?thesis using False assms j by (simp add: registerFile_seen [OF Some])
  qed
qed

lemma registerAll_Nil [simp]: "registerAll s [] = s"
  by (simp add: registerAll_def)

lemma registerAll_Cons [simp]:
  "registerAll s ((isLib, lib, rank, p) # regs) = registerAll (registerFile isLib lib rank s p) regs"
  by (simp add: registerAll_def)

lemma registerAll_ok: "registry_ok s \<Longrightarrow> registry_ok (registerAll s regs)"
  by (induction regs arbitrary: s) (auto simp: registerFile_ok)

lemma registerAll_flag:
  assumes "registry_ok s" "fileIndex s q = Some j"
  shows "fileIndex (registerAll s regs) q = Some j \<and>
         isLibraryFile (fileEntries (registerAll s regs) ! j) =
           (isLibraryFile (fileEntries s ! j) \<and> (\<forall>(isLib, lib, rank, p) \<in> set regs. p = q \<longrightarrow> isLib))"
  using assms
proof (induction regs arbitrary: s)
  case Nil
  then show ?case by simp
next
  case (Cons reg regs)
  obtain isLib lib rank p where reg: "reg = (isLib, lib, rank, p)"
    by (cases reg) auto
  let ?s1 = "registerFile isLib lib rank s p"
  have ok1: "registry_ok ?s1" using Cons.prems(1) by (rule registerFile_ok)
  have step: "fileIndex ?s1 q = Some j \<and>
      isLibraryFile (fileEntries ?s1 ! j) = (isLibraryFile (fileEntries s ! j) \<and> (q = p \<longrightarrow> isLib))"
    using Cons.prems by (rule registerFile_flag)
  from Cons.IH [OF ok1 conjunct1 [OF step]] step
  show ?case by (auto simp: reg)
qed

lemma registerFile_other_unseen:
  "fileIndex s q = None \<Longrightarrow> q \<noteq> p \<Longrightarrow> fileIndex (registerFile isLib lib rank s p) q = None"
  by (cases "fileIndex s p") (simp_all add: registerFile_unseen registerFile_seen)

lemma registerAll_first:
  assumes "registry_ok s" "fileIndex s q = None" "q \<in> (\<lambda>(isLib, lib, rank, p). p) ` set regs"
  shows "\<exists>j. fileIndex (registerAll s regs) q = Some j \<and>
             isLibraryFile (fileEntries (registerAll s regs) ! j) =
               (\<forall>(isLib, lib, rank, p) \<in> set regs. p = q \<longrightarrow> isLib)"
  using assms
proof (induction regs arbitrary: s)
  case Nil
  then show ?case by simp
next
  case (Cons reg regs)
  obtain isLib lib rank p where reg: "reg = (isLib, lib, rank, p)"
    by (cases reg) auto
  let ?s1 = "registerFile isLib lib rank s p"
  have ok1: "registry_ok ?s1" using Cons.prems(1) by (rule registerFile_ok)
  show ?case
  proof (cases "p = q")
    case True
    have idx: "fileIndex ?s1 q = Some (length (fileEntries s))"
      and flag: "isLibraryFile (fileEntries ?s1 ! length (fileEntries s)) = isLib"
      using Cons.prems(2) True by (simp_all add: registerFile_unseen)
    from registerAll_flag [OF ok1 idx, of regs] flag
    show ?thesis by (auto simp: reg True)
  next
    case False
    have none1: "fileIndex ?s1 q = None"
      using Cons.prems(2) False by (simp add: registerFile_other_unseen)
    have mem: "q \<in> (\<lambda>(isLib, lib, rank, p). p) ` set regs"
      using Cons.prems(3) False by (auto simp: reg)
    from Cons.IH [OF ok1 none1 mem] False
    show ?thesis by (auto simp: reg)
  qed
qed

lemma addFilesInternal_registerAll:
  "svGlob x basePath pattern Files expandEnvVars = (rank, found, 0) \<Longrightarrow>
   addFilesInternal x pattern basePath isLib lib expandEnvVars s =
     registerAll s (map (\<lambda>p. (isLib, lib, rank, p)) found)"
  by (simp add: addFilesInternal_def registerAll_def foldl_map)

lemma demo_glob_simps:
  "demo_glob b ''['' m e = (0, [], 22)"
  "demo_glob b ''*.sv'' m e = (1, [''a.sv'', ''b.sv''], 0)"
  "demo_glob b ''a.sv'' m e = (0, [''a.sv''], 0)"
  by (simp_all add: demo_glob_def)

subsection \<open>C1: a lower rank after a recorded tie\<close>

text \<open>A registration with a non-null library at a rank below the stored one adopts the
  library and the rank, and leaves the tie record as it is.\<close>

lemma lower_rank_keeps_tie:
  assumes "fileIndex s p = Some i" "i < length (fileEntries s)"
    and "rank < libraryRank (fileEntries s ! i)"
  shows "library (fileEntries (registerFile isLib (Some lib) rank s p) ! i) = Some lib \<and>
         libraryRank (fileEntries (registerFile isLib (Some lib) rank s p) ! i) = rank \<and>
         secondLib (fileEntries (registerFile isLib (Some lib) rank s p) ! i) =
           secondLib (fileEntries s ! i)"
  using assms by (simp add: registerFile_seen mergeEntry_def)

text \<open>Claim C1 says that when a path with a recorded rank tie (\<^verbatim>\<open>secondLib\<close> set) is
  registered again with a non-null library at a strictly lower rank, the new library and
  rank are adopted and the tie record is cleared. The branch of \<^verbatim>\<open>addFilesInternal\<close> that
  overrules the library assigns \<^verbatim>\<open>library\<close> and \<^verbatim>\<open>libraryRank\<close> only. The run below
  registers \<^verbatim>\<open>a.sv\<close> for the libraries A and B through the pattern \<^verbatim>\<open>*.sv\<close> (rank 1,
  a tie) and then for the library C by its exact path (rank 0): the entry ends with library
  C, rank 0, and the tie record still naming B.\<close>

theorem stale_tie_after_lower_rank:
  "(let s = addLibraryFiles demo ''C'' ''a.sv''
             (addLibraryFiles demo ''B'' ''*.sv''
               (addLibraryFiles demo ''A'' ''*.sv'' (SourceLoader_init demo)))
    in fileIndex s ''a.sv'' = Some 0 \<and>
       fileEntries s ! 0 =
         \<lparr>path = ''a.sv'', isLibraryFile = True, library = Some ''C'', libraryRank = 0,
          secondLib = Some ''B''\<rparr>)"
  by (simp add: addLibraryFiles_def getOrAddLibrary_def addFilesInternal_def demo_def
      demo_glob_simps registerFile_def SourceLoader_init_def Let_def)

subsection \<open>C2: registering a path twice with the same arguments\<close>

text \<open>What the loop body does when an unseen path is registered twice with the same flag,
  library and rank: there is still one entry for the path, with the path, flag, library and
  rank of a single registration, and the second registration has written its library into
  \<^verbatim>\<open>secondLib\<close>. The branch for equal ranks tests the ranks only: whenever the entry has
  a library and the ranks are equal, the incoming library is recorded, also when it is the
  library the entry already has.\<close>

lemma reregistration_sets_secondLib:
  assumes "registry_ok s" "fileIndex s p = None"
  shows "(let s1 = registerFile isLib lib rank s p;
              s2 = registerFile isLib lib rank s1 p
          in filter (\<lambda>e. path e = p) (fileEntries s1) =
               [\<lparr>path = p, isLibraryFile = isLib, library = lib, libraryRank = rank,
                 secondLib = None\<rparr>] \<and>
             filter (\<lambda>e. path e = p) (fileEntries s2) =
               [\<lparr>path = p, isLibraryFile = isLib, library = lib, libraryRank = rank,
                 secondLib = lib\<rparr>] \<and>
             length (fileEntries s2) = length (fileEntries s1) \<and>
             fileIndex s2 = fileIndex s1) \<and>
         (\<forall>t i other. fileIndex t p = Some i \<and> i < length (fileEntries t) \<and>
                library (fileEntries t ! i) \<noteq> None \<and> libraryRank (fileEntries t ! i) = rank \<longrightarrow>
            secondLib (fileEntries (registerFile isLib (Some other) rank t p) ! i) = Some other)"
proof (intro conjI allI impI)
  have fresh: "filter (\<lambda>e. path e = p) (fileEntries s) = []"
  proof -
    have "\<forall>e \<in> set (fileEntries s). path e \<noteq> p"
      using assms by (auto simp: registry_ok_def in_set_conv_nth)
    then show ?thesis by (simp add: filter_empty_conv)
  qed
  define s1 where "s1 = s\<lparr>fileIndex := (fileIndex s)(p \<mapsto> length (fileEntries s)),
       fileEntries := fileEntries s @
         [\<lparr>path = p, isLibraryFile = isLib, library = lib, libraryRank = rank, secondLib = None\<rparr>]\<rparr>"
  have first: "registerFile isLib lib rank s p = s1"
    using assms(2) by (simp add: registerFile_unseen s1_def)
  have idx: "fileIndex s1 p = Some (length (fileEntries s))"
    by (simp add: s1_def)
  have second: "registerFile isLib lib rank s1 p =
      s1\<lparr>fileEntries := (fileEntries s1)[length (fileEntries s) :=
            mergeEntry isLib lib rank (fileEntries s1 ! length (fileEntries s))]\<rparr>"
    by (rule registerFile_seen [OF idx])
  show "let s1 = registerFile isLib lib rank s p;
            s2 = registerFile isLib lib rank s1 p
        in filter (\<lambda>e. path e = p) (fileEntries s1) =
             [\<lparr>path = p, isLibraryFile = isLib, library = lib, libraryRank = rank,
               secondLib = None\<rparr>] \<and>
           filter (\<lambda>e. path e = p) (fileEntries s2) =
             [\<lparr>path = p, isLibraryFile = isLib, library = lib, libraryRank = rank,
               secondLib = lib\<rparr>] \<and>
           length (fileEntries s2) = length (fileEntries s1) \<and>
           fileIndex s2 = fileIndex s1"
    unfolding Let_def first second
    using fresh by (cases lib) (simp_all add: s1_def mergeEntry_def)
next
  fix t :: SourceLoader and i other
  assume a: "fileIndex t p = Some i \<and> i < length (fileEntries t) \<and>
             library (fileEntries t ! i) \<noteq> None \<and> libraryRank (fileEntries t ! i) = rank"
  then have idx: "fileIndex t p = Some i" by simp
  show "secondLib (fileEntries (registerFile isLib (Some other) rank t p) ! i) = Some other"
    unfolding registerFile_seen [OF idx]
    using a by (auto simp: mergeEntry_def)
qed

text \<open>Claim C2 says that registering the same path twice with the same flag, the same
  non-null library and the same rank yields one entry identical to the entry of a single
  registration, a tie being recorded on an equal rank only when the incoming library
  differs from the stored one. The code has no such comparison: registering \<^verbatim>\<open>a.sv\<close>
  twice for the library A leaves an entry whose \<^verbatim>\<open>secondLib\<close> is A, a library tied with
  itself, where the entry of a single registration has none; the same happens through two
  equal calls of \<^verbatim>\<open>addLibraryFiles\<close>.\<close>

theorem same_library_recorded_as_tie:
  "(let s1 = registerFile True (Some ''A'') 1 (SourceLoader_init demo) ''a.sv'';
        s2 = registerFile True (Some ''A'') 1 s1 ''a.sv''
    in fileEntries s1 =
         [\<lparr>path = ''a.sv'', isLibraryFile = True, library = Some ''A'', libraryRank = 1,
           secondLib = None\<rparr>] \<and>
       fileEntries s2 =
         [\<lparr>path = ''a.sv'', isLibraryFile = True, library = Some ''A'', libraryRank = 1,
           secondLib = Some ''A''\<rparr>]) \<and>
   fileEntries (addLibraryFiles demo ''A'' ''a.sv'' (SourceLoader_init demo)) =
     [\<lparr>path = ''a.sv'', isLibraryFile = True, library = Some ''A'', libraryRank = 0,
       secondLib = None\<rparr>] \<and>
   fileEntries (addLibraryFiles demo ''A'' ''a.sv''
                  (addLibraryFiles demo ''A'' ''a.sv'' (SourceLoader_init demo))) =
     [\<lparr>path = ''a.sv'', isLibraryFile = True, library = Some ''A'', libraryRank = 0,
       secondLib = Some ''A''\<rparr>]"
  by (simp add: addLibraryFiles_def getOrAddLibrary_def addFilesInternal_def demo_def
      demo_glob_simps registerFile_def SourceLoader_init_def Let_def)

subsection \<open>C5: library precedence\<close>

text \<open>Claim C5: when an unseen path is registered twice with non-null libraries, ranks 2
  (library A) then 1 (library B) leave the entry with library B, rank 1 and no tie record;
  ranks 1 (library A) then 1 (library B) leave it with library A and \<^verbatim>\<open>secondLib\<close> B; and
  a registration whose rank is strictly greater than the rank stored for an entry that has
  a library leaves the entry's library, rank and tie record unchanged.\<close>

theorem library_precedence:
  assumes "fileIndex s p = None"
  shows "(let s2 = registerFile isLib2 (Some B) 1 (registerFile isLib1 (Some A) 2 s p) p;
              e = fileEntries s2 ! length (fileEntries s)
          in fileIndex s2 p = Some (length (fileEntries s)) \<and> path e = p \<and>
             library e = Some B \<and> libraryRank e = 1 \<and> secondLib e = None) \<and>
         (let s2 = registerFile isLib2 (Some B) 1 (registerFile isLib1 (Some A) 1 s p) p;
              e = fileEntries s2 ! length (fileEntries s)
          in fileIndex s2 p = Some (length (fileEntries s)) \<and> path e = p \<and>
             library e = Some A \<and> libraryRank e = 1 \<and> secondLib e = Some B) \<and>
         (\<forall>t i. fileIndex t p = Some i \<and> i < length (fileEntries t) \<and>
                library (fileEntries t ! i) \<noteq> None \<and> libraryRank (fileEntries t ! i) < rank \<longrightarrow>
            (let e = fileEntries t ! i;
                 e' = fileEntries (registerFile isLib (Some C) rank t p) ! i
             in library e' = library e \<and> libraryRank e' = libraryRank e \<and>
                secondLib e' = secondLib e))"
proof (intro conjI allI impI)
  define n where "n = length (fileEntries s)"
  define first where "first r = s\<lparr>fileIndex := (fileIndex s)(p \<mapsto> n),
       fileEntries := fileEntries s @
         [\<lparr>path = p, isLibraryFile = isLib1, library = Some A, libraryRank = r,
           secondLib = None\<rparr>]\<rparr>" for r
  have reg1: "registerFile isLib1 (Some A) r s p = first r" for r
    using assms by (simp add: registerFile_unseen first_def n_def)
  have idx: "fileIndex (first r) p = Some n" for r
    by (simp add: first_def)
  have reg2: "registerFile isLib2 (Some B) 1 (first r) p =
      (first r)\<lparr>fileEntries := (fileEntries (first r))[n :=
            mergeEntry isLib2 (Some B) 1 (fileEntries (first r) ! n)]\<rparr>" for r
    by (rule registerFile_seen [OF idx])
  show "let s2 = registerFile isLib2 (Some B) 1 (registerFile isLib1 (Some A) 2 s p) p;
            e = fileEntries s2 ! length (fileEntries s)
        in fileIndex s2 p = Some (length (fileEntries s)) \<and> path e = p \<and>
           library e = Some B \<and> libraryRank e = 1 \<and> secondLib e = None"
    unfolding Let_def reg1 reg2 n_def [symmetric]
    by (simp add: first_def mergeEntry_def n_def)
  show "let s2 = registerFile isLib2 (Some B) 1 (registerFile isLib1 (Some A) 1 s p) p;
            e = fileEntries s2 ! length (fileEntries s)
        in fileIndex s2 p = Some (length (fileEntries s)) \<and> path e = p \<and>
           library e = Some A \<and> libraryRank e = 1 \<and> secondLib e = Some B"
    unfolding Let_def reg1 reg2 n_def [symmetric]
    by (simp add: first_def mergeEntry_def n_def)
next
  fix t :: SourceLoader and i
  assume a: "fileIndex t p = Some i \<and> i < length (fileEntries t) \<and>
             library (fileEntries t ! i) \<noteq> None \<and> libraryRank (fileEntries t ! i) < rank"
  then have idx: "fileIndex t p = Some i" by simp
  show "let e = fileEntries t ! i;
            e' = fileEntries (registerFile isLib (Some C) rank t p) ! i
        in library e' = library e \<and> libraryRank e' = libraryRank e \<and> secondLib e' = secondLib e"
    unfolding Let_def registerFile_seen [OF idx]
    using a by (auto simp: mergeEntry_def)
qed

theorem library_precedence_witness:
  "fileIndex (SourceLoader_init demo) ''a.sv'' = None \<and>
   library (fileEntries (registerFile True (Some ''B'') 1
      (registerFile True (Some ''A'') 2 (SourceLoader_init demo) ''a.sv'') ''a.sv'') ! 0) = Some ''B'' \<and>
   secondLib (fileEntries (registerFile True (Some ''B'') 1
      (registerFile True (Some ''A'') 2 (SourceLoader_init demo) ''a.sv'') ''a.sv'') ! 0) = None \<and>
   library (fileEntries (registerFile True (Some ''B'') 1
      (registerFile True (Some ''A'') 1 (SourceLoader_init demo) ''a.sv'') ''a.sv'') ! 0) = Some ''A'' \<and>
   secondLib (fileEntries (registerFile True (Some ''B'') 1
      (registerFile True (Some ''A'') 1 (SourceLoader_init demo) ''a.sv'') ''a.sv'') ! 0) = Some ''B'' \<and>
   library (fileEntries (registerFile True (Some ''C'') 3
      (registerFile True (Some ''A'') 1 (SourceLoader_init demo) ''a.sv'') ''a.sv'') ! 0) = Some ''A''"
proof -
  have none: "fileIndex (SourceLoader_init demo) ''a.sv'' = None"
    and len: "length (fileEntries (SourceLoader_init demo)) = 0"
    by (simp_all add: SourceLoader_init_def)
  show ?thesis
    using library_precedence [OF none, where ?isLib1.0 = True and A = "''A''" and ?isLib2.0 = True
        and B = "''B''" and rank = 3 and isLib = True and C = "''C''"]
    by (simp add: registerFile_def SourceLoader_init_def Let_def)
qed

subsection \<open>C6: a direct registration wins over library registrations\<close>

text \<open>The same holds for the calls that register files: every call of
  \<^verbatim>\<open>addFilesInternal\<close> (and so of \<^verbatim>\<open>addFiles\<close>, \<^verbatim>\<open>addLibraryFiles\<close> and
  \<^verbatim>\<open>createLibrary\<close>) keeps the registry consistent and keeps a direct entry direct, and
  \<^verbatim>\<open>addFiles\<close> makes every path its glob finds a direct entry.\<close>

lemma addFilesInternal_keeps_direct:
  assumes "registry_ok s"
  shows "registry_ok (addFilesInternal x pattern basePath isLib lib expandEnvVars s) \<and>
         (fileIndex s p = Some i \<and> \<not> isLibraryFile (fileEntries s ! i) \<longrightarrow>
            fileIndex (addFilesInternal x pattern basePath isLib lib expandEnvVars s) p = Some i \<and>
            \<not> isLibraryFile
                (fileEntries (addFilesInternal x pattern basePath isLib lib expandEnvVars s) ! i))"
proof -
  obtain rank found ec where glob: "svGlob x basePath pattern Files expandEnvVars = (rank, found, ec)"
    by (cases "svGlob x basePath pattern Files expandEnvVars") auto
  show ?thesis
  proof (cases "ec = 0")
    case True
    have eq: "addFilesInternal x pattern basePath isLib lib expandEnvVars s =
        registerAll s (map (\<lambda>q. (isLib, lib, rank, q)) found)"
      using glob True by (simp add: addFilesInternal_registerAll)
    show ?thesis
      unfolding eq
      using registerAll_ok [OF assms] registerAll_flag [OF assms, of p i]
      by auto
  next
    case False
    then have "addFilesInternal x pattern basePath isLib lib expandEnvVars s =
        s\<lparr>errors := errors s @ [(widen pattern, ec)]\<rparr>"
      using glob by (simp add: addFilesInternal_def)
    then show ?thesis
      using assms by (simp add: registry_ok_def)
  qed
qed

lemma addFiles_makes_direct:
  assumes "registry_ok s" "svGlob x [] pattern Files False = (rank, found, 0)" "p \<in> set found"
  shows "\<exists>i. fileIndex (addFiles x pattern s) p = Some i \<and>
             \<not> isLibraryFile (fileEntries (addFiles x pattern s) ! i)"
proof -
  let ?regs = "map (\<lambda>q. (False, None, rank, q)) found"
  have eq: "addFiles x pattern s = registerAll s ?regs"
    using assms(2) by (simp add: addFiles_def addFilesInternal_registerAll)
  have mem: "(False, None, rank, p) \<in> set ?regs"
    using assms(3) by simp
  then have paths: "p \<in> (\<lambda>(isLib, lib, rank, q). q) ` set ?regs"
    by force
  show ?thesis
  proof (cases "fileIndex s p")
    case None
    from registerAll_first [OF assms(1) None paths] mem show ?thesis
      unfolding eq by fastforce
  next
    case (Some j)
    from registerAll_flag [OF assms(1) Some, of ?regs] mem show ?thesis
      unfolding eq by fastforce
  qed
qed

text \<open>Claim C6: over any sequence of registrations from a consistent registry, a path that
  is registered at least once as a direct file ends as a non-library entry, whatever the
  number and the order of the library registrations of that path. For a path that was
  unseen before the sequence, the final flag is the conjunction of the flags of all its
  registrations; and an entry whose flag is false keeps it false under every later
  registration.\<close>

theorem direct_registration_stays_direct:
  assumes "registry_ok s"
  shows "((\<exists>lib rank. (False, lib, rank, p) \<in> set regs) \<longrightarrow>
            (\<exists>i. fileIndex (registerAll s regs) p = Some i \<and>
                 i < length (fileEntries (registerAll s regs)) \<and>
                 path (fileEntries (registerAll s regs) ! i) = p \<and>
                 \<not> isLibraryFile (fileEntries (registerAll s regs) ! i))) \<and>
         (fileIndex s p = None \<and> p \<in> (\<lambda>(isLib, lib, rank, q). q) ` set regs \<longrightarrow>
            (\<exists>i. fileIndex (registerAll s regs) p = Some i \<and>
                 isLibraryFile (fileEntries (registerAll s regs) ! i) =
                   (\<forall>(isLib, lib, rank, q) \<in> set regs. q = p \<longrightarrow> isLib))) \<and>
         (\<forall>i. fileIndex s p = Some i \<and> \<not> isLibraryFile (fileEntries s ! i) \<longrightarrow>
            fileIndex (registerAll s regs) p = Some i \<and>
            \<not> isLibraryFile (fileEntries (registerAll s regs) ! i))"
proof (intro conjI impI allI)
  assume ex: "\<exists>lib rank. (False, lib, rank, p) \<in> set regs"
  then have mem: "p \<in> (\<lambda>(isLib, lib, rank, q). q) ` set regs" by force
  have ok: "registry_ok (registerAll s regs)" using assms by (rule registerAll_ok)
  have "\<exists>i. fileIndex (registerAll s regs) p = Some i \<and>
            \<not> isLibraryFile (fileEntries (registerAll s regs) ! i)"
  proof (cases "fileIndex s p")
    case None
    from registerAll_first [OF assms None mem] ex show ?thesis by fastforce
  next
    case (Some j)
    from registerAll_flag [OF assms Some, of regs] ex show ?thesis by fastforce
  qed
  then show "\<exists>i. fileIndex (registerAll s regs) p = Some i \<and>
                 i < length (fileEntries (registerAll s regs)) \<and>
                 path (fileEntries (registerAll s regs) ! i) = p \<and>
                 \<not> isLibraryFile (fileEntries (registerAll s regs) ! i)"
    using ok by (auto simp: registry_ok_def)
next
  assume "fileIndex s p = None \<and> p \<in> (\<lambda>(isLib, lib, rank, q). q) ` set regs"
  then show "\<exists>i. fileIndex (registerAll s regs) p = Some i \<and>
                 isLibraryFile (fileEntries (registerAll s regs) ! i) =
                   (\<forall>(isLib, lib, rank, q) \<in> set regs. q = p \<longrightarrow> isLib)"
    using registerAll_first [OF assms, of p regs] by simp
next
  fix i
  assume a: "fileIndex s p = Some i \<and> \<not> isLibraryFile (fileEntries s ! i)"
  then show "fileIndex (registerAll s regs) p = Some i"
    using registerAll_flag [OF assms, of p i regs] by simp
  from a show "\<not> isLibraryFile (fileEntries (registerAll s regs) ! i)"
    using registerAll_flag [OF assms, of p i regs] by simp
qed

theorem direct_registration_stays_direct_witness:
  "registry_ok (SourceLoader_init demo) \<and>
   (\<exists>i. fileIndex (registerAll (SourceLoader_init demo)
            [(True, Some ''A'', 1, ''a.sv''), (False, None, 0, ''a.sv''),
             (True, Some ''B'', 1, ''a.sv'')]) ''a.sv'' = Some i \<and>
        \<not> isLibraryFile (fileEntries (registerAll (SourceLoader_init demo)
            [(True, Some ''A'', 1, ''a.sv''), (False, None, 0, ''a.sv''),
             (True, Some ''B'', 1, ''a.sv'')]) ! i)) \<and>
   fileIndex (registerFile False None 0 (SourceLoader_init demo) ''a.sv'') ''a.sv'' = Some 0 \<and>
   \<not> isLibraryFile
       (fileEntries (registerAll (registerFile False None 0 (SourceLoader_init demo) ''a.sv'')
          [(True, Some ''A'', 1, ''a.sv''), (True, Some ''B'', 2, ''a.sv'')]) ! 0) \<and>
   \<not> isLibraryFile
       (fileEntries (addFiles demo ''a.sv'' (addLibraryFiles demo ''L'' ''a.sv'' (SourceLoader_init demo))) ! 0) \<and>
   \<not> isLibraryFile
       (fileEntries (addLibraryFiles demo ''L'' ''a.sv'' (addFiles demo ''a.sv'' (SourceLoader_init demo))) ! 0)"
proof -
  let ?regs = "[(True, Some ''A'', 1, ''a.sv''), (False, None, 0, ''a.sv''),
               (True, Some ''B'', 1, ''a.sv'')]"
  let ?s1 = "registerFile False None 0 (SourceLoader_init demo) ''a.sv''"
  have first: "\<exists>i. fileIndex (registerAll (SourceLoader_init demo) ?regs) ''a.sv'' = Some i \<and>
        \<not> isLibraryFile (fileEntries (registerAll (SourceLoader_init demo) ?regs) ! i)"
    using direct_registration_stays_direct [OF registry_ok_init,
        where regs = ?regs and p = "''a.sv''"]
    by auto
  have ok1: "registry_ok ?s1"
    using registry_ok_init by (rule registerFile_ok)
  have direct: "fileIndex ?s1 ''a.sv'' = Some 0 \<and> \<not> isLibraryFile (fileEntries ?s1 ! 0)"
    by (simp add: registerFile_def SourceLoader_init_def)
  have later: "\<not> isLibraryFile (fileEntries (registerAll ?s1
      [(True, Some ''A'', 1, ''a.sv''), (True, Some ''B'', 2, ''a.sv'')]) ! 0)"
    using direct direct_registration_stays_direct [OF ok1,
        where regs = "[(True, Some ''A'', 1, ''a.sv''), (True, Some ''B'', 2, ''a.sv'')]"
          and p = "''a.sv''"]
    by blast
  have calls: "\<not> isLibraryFile
       (fileEntries (addFiles demo ''a.sv'' (addLibraryFiles demo ''L'' ''a.sv'' (SourceLoader_init demo))) ! 0) \<and>
     \<not> isLibraryFile
       (fileEntries (addLibraryFiles demo ''L'' ''a.sv'' (addFiles demo ''a.sv'' (SourceLoader_init demo))) ! 0)"
    by code_simp
  from first later direct calls registry_ok_init show ?thesis by blast
qed

subsection \<open>C10: a failed pattern expansion changes only the error list\<close>

text \<open>Claim C10: when the glob of \<^verbatim>\<open>addFiles\<close>, \<^verbatim>\<open>addLibraryFiles\<close>,
  \<^verbatim>\<open>addSearchDirectories\<close> or \<^verbatim>\<open>addLibraryMaps\<close> returns an error code, the call
  appends exactly one error record holding the widened pattern and that code and returns,
  leaving the file entries, the path index and the search directories as they were.
  (\<^verbatim>\<open>addLibraryFiles\<close> has by then looked its library up, which may have added it to the
  libraries; the other two return the loader otherwise unchanged.)\<close>

theorem glob_failure_keeps_registries:
  "(snd (snd (svGlob x [] pattern Files False)) \<noteq> 0 \<longrightarrow>
      (let s' = addFiles x pattern s
       in errors s' = errors s @ [(widen pattern, snd (snd (svGlob x [] pattern Files False)))] \<and>
          fileEntries s' = fileEntries s \<and> fileIndex s' = fileIndex s \<and>
          searchDirectories s' = searchDirectories s)) \<and>
   (snd (snd (svGlob x [] pattern Files False)) \<noteq> 0 \<longrightarrow>
      (let s' = addLibraryFiles x libName pattern s
       in errors s' = errors s @ [(widen pattern, snd (snd (svGlob x [] pattern Files False)))] \<and>
          fileEntries s' = fileEntries s \<and> fileIndex s' = fileIndex s \<and>
          searchDirectories s' = searchDirectories s)) \<and>
   (snd (snd (svGlob x [] pattern Directories False)) \<noteq> 0 \<longrightarrow>
      addSearchDirectories x pattern s =
        s\<lparr>errors := errors s @ [(widen pattern, snd (snd (svGlob x [] pattern Directories False)))]\<rparr>) \<and>
   (snd (snd (svGlob x basePath pattern Files expandEnvVars)) \<noteq> 0 \<longrightarrow>
      addLibraryMaps depth x pattern basePath expandEnvVars (s, sm) =
        Some (Inr (s\<lparr>errors := errors s @
                 [(widen pattern, snd (snd (svGlob x basePath pattern Files expandEnvVars)))]\<rparr>, sm)))"
proof (intro conjI impI)
  assume "snd (snd (svGlob x [] pattern Files False)) \<noteq> 0"
  then show "let s' = addFiles x pattern s
       in errors s' = errors s @ [(widen pattern, snd (snd (svGlob x [] pattern Files False)))] \<and>
          fileEntries s' = fileEntries s \<and> fileIndex s' = fileIndex s \<and>
          searchDirectories s' = searchDirectories s"
    by (cases "svGlob x [] pattern Files False")
      (simp add: addFiles_def addFilesInternal_def)
next
  assume "snd (snd (svGlob x [] pattern Files False)) \<noteq> 0"
  then show "let s' = addLibraryFiles x libName pattern s
       in errors s' = errors s @ [(widen pattern, snd (snd (svGlob x [] pattern Files False)))] \<and>
          fileEntries s' = fileEntries s \<and> fileIndex s' = fileIndex s \<and>
          searchDirectories s' = searchDirectories s"
    by (cases "svGlob x [] pattern Files False")
      (simp add: addLibraryFiles_def getOrAddLibrary_def addFilesInternal_def)
next
  assume "snd (snd (svGlob x [] pattern Directories False)) \<noteq> 0"
  then show "addSearchDirectories x pattern s =
        s\<lparr>errors := errors s @ [(widen pattern, snd (snd (svGlob x [] pattern Directories False)))]\<rparr>"
    by (cases "svGlob x [] pattern Directories False")
      (simp add: addSearchDirectories_def)
next
  assume "snd (snd (svGlob x basePath pattern Files expandEnvVars)) \<noteq> 0"
  then show "addLibraryMaps depth x pattern basePath expandEnvVars (s, sm) =
        Some (Inr (s\<lparr>errors := errors s @
                 [(widen pattern, snd (snd (svGlob x basePath pattern Files expandEnvVars)))]\<rparr>, sm))"
    by (cases "svGlob x basePath pattern Files expandEnvVars") simp
qed

theorem glob_failure_keeps_registries_witness:
  "snd (snd (svGlob demo [] ''['' Files False)) \<noteq> 0 \<and>
   errors (addFiles demo ''['' (SourceLoader_init demo)) = [(''['', 22)] \<and>
   fileEntries (addFiles demo ''['' (SourceLoader_init demo)) = [] \<and>
   errors (addLibraryFiles demo ''L'' ''['' (SourceLoader_init demo)) = [(''['', 22)] \<and>
   addSearchDirectories demo ''['' (SourceLoader_init demo) = (SourceLoader_init demo)\<lparr>errors := [(''['', 22)]\<rparr> \<and>
   addLibraryMaps 0 demo ''['' [] False ((SourceLoader_init demo), \<lparr>files = [], cache = {}\<rparr>) =
     Some (Inr ((SourceLoader_init demo)\<lparr>errors := [(''['', 22)]\<rparr>, \<lparr>files = [], cache = {}\<rparr>))"
proof -
  have g: "svGlob demo b ''['' m e = (0, [], 22)" for b m e
    by (simp add: demo_def demo_glob_simps)
  have e0: "errors (SourceLoader_init demo) = []" "fileEntries (SourceLoader_init demo) = []"
    by (simp_all add: SourceLoader_init_def)
  show ?thesis
    using glob_failure_keeps_registries [of demo "''[''" "SourceLoader_init demo" "''L''" "[]" False 0
        "\<lparr>files = [], cache = {}\<rparr>"]
    by (simp add: g e0 Let_def widen_def)
qed

section \<open>Properties of loading and parsing\<close>

subsection \<open>Loading the file entries\<close>

lemma readSource_files [simp]: "files (snd (readSource sm p lib)) = files sm"
  by (simp add: readSource_def split: option.splits)

lemma loadAndParse_manager:
  "snd (loadAndParse x entry srcOptions sm) =
     (if map_of (files sm) (path entry) = None then sm
      else sm\<lparr>cache := insert (path entry) (cache sm)\<rparr>)"
  by (simp add: loadAndParse_def readSource_def Let_def split: option.splits)

lemma loadAndParse_result:
  "files sm = files sm' \<Longrightarrow>
   fst (loadAndParse x entry srcOptions sm) = fst (loadAndParse x entry srcOptions sm')"
  by (simp add: loadAndParse_def readSource_def Let_def split: option.splits)

lemma loadResultOf_cong:
  "files sm = files sm' \<Longrightarrow> loadResultOf x srcOptions sm = loadResultOf x srcOptions sm'"
  unfolding loadResultOf_def by (rule ext) (rule loadAndParse_result)

lemma loadAndParse_failure:
  assumes "fst (loadAndParse x entry srcOptions sm) = Inl f"
  shows "f = AssertionFailed"
proof (cases "map_of (files sm) (path entry)")
  case None
  with assms show ?thesis by (simp add: loadAndParse_def readSource_def)
next
  case (Some content)
  with assms show ?thesis
    by (simp add: loadAndParse_def readSource_def Let_def split: if_splits)
qed

lemma loadAndParse_pair:
  "loadAndParse x entry srcOptions sm =
     (loadResultOf x srcOptions sm entry, afterReads sm [entry])"
proof -
  have "snd (loadAndParse x entry srcOptions sm) = afterReads sm [entry]"
    by (cases sm) (auto simp: loadAndParse_manager afterReads_def readPaths_def)
  then show ?thesis
    by (simp add: loadResultOf_def prod_eq_iff)
qed

lemma files_afterReads [simp]: "files (afterReads sm entries) = files sm"
  by (simp add: afterReads_def)

lemma afterReads_Cons:
  "afterReads (afterReads sm [entry]) entries = afterReads sm (entry # entries)"
  by (cases sm) (auto simp: afterReads_def readPaths_def)

lemma afterReads_Nil [simp]: "afterReads sm [] = sm"
  by (simp add: afterReads_def readPaths_def)

lemma loadResultOf_isl:
  "isl (loadResultOf x srcOptions sm e) =
     (map_of (files sm) (path e) \<noteq> None \<and> \<not> isLibraryFile e \<and> \<not> singleUnit srcOptions \<and>
      librariesInheritMacros srcOptions)"
  by (cases "map_of (files sm) (path e)")
    (simp_all add: loadResultOf_def loadAndParse_def readSource_def Let_def)

lemma loadResultOf_unreadable:
  "map_of (files sm) (path e) = None \<Longrightarrow>
   loadResultOf x srcOptions sm e = Inr (LoadError e no_such_file)"
  by (simp add: loadResultOf_def loadAndParse_def readSource_def)

lemma loadResultOf_readable:
  assumes "map_of (files sm) (path e) \<noteq> None" "\<not> isl (loadResultOf x srcOptions sm e)"
  shows "(\<exists>t. loadResultOf x srcOptions sm e = Inr (LoadedTree (Some t))) \<or>
         (\<exists>b d. loadResultOf x srcOptions sm e = Inr (LoadedBuffer b d))"
proof -
  obtain content where "map_of (files sm) (path e) = Some content"
    using assms(1) by auto
  then show ?thesis
    using assms(2)
    by (auto simp: loadResultOf_def loadAndParse_def readSource_def Let_def split: if_splits)
qed

lemma loadResultOf_tree:
  "loadResultOf x srcOptions sm e = Inr (LoadedTree t) \<Longrightarrow> t \<noteq> None"
  by (auto simp: loadResultOf_def loadAndParse_def readSource_def Let_def
      split: option.splits if_splits)

lemma loadAndParse_numThreads:
  "loadAndParse x entry (srcOptions\<lparr>numThreads := n\<rparr>) sm = loadAndParse x entry srcOptions sm"
  by (simp add: loadAndParse_def split: prod.splits sum.splits)

lemma loadSequential_eq:
  "loadSequential x srcOptions entries L sm =
     (if \<exists>e \<in> set entries. isl (loadResultOf x srcOptions sm e) then Inl AssertionFailed
      else Inr (foldl handleLoadResult L (map (\<lambda>e. projr (loadResultOf x srcOptions sm e)) entries),
                afterReads sm entries))"
proof (induction entries arbitrary: L sm)
  case Nil
  then show ?case by simp
next
  case (Cons entry rest)
  have same: "loadResultOf x srcOptions (afterReads sm [entry]) = loadResultOf x srcOptions sm"
    by (rule loadResultOf_cong) simp
  show ?case
  proof (cases "loadResultOf x srcOptions sm entry")
    case (Inl f)
    then have "f = AssertionFailed"
      unfolding loadResultOf_def by (rule loadAndParse_failure)
    then have "loadSequential x srcOptions (entry # rest) L sm = Inl AssertionFailed"
      using Inl by (simp add: loadAndParse_pair)
    moreover have "\<exists>e \<in> set (entry # rest). isl (loadResultOf x srcOptions sm e)"
      using Inl by simp
    ultimately show ?thesis by (simp only: if_True)
  next
    case (Inr r)
    have step: "loadSequential x srcOptions (entry # rest) L sm =
        loadSequential x srcOptions rest (handleLoadResult L r) (afterReads sm [entry])"
      using Inr by (simp add: loadAndParse_pair)
    have cond: "(\<exists>e \<in> set (entry # rest). isl (loadResultOf x srcOptions sm e)) =
        (\<exists>e \<in> set rest. isl (loadResultOf x srcOptions sm e))"
      using Inr by simp
    have fold: "foldl handleLoadResult L
          (map (\<lambda>e. projr (loadResultOf x srcOptions sm e)) (entry # rest)) =
        foldl handleLoadResult (handleLoadResult L r)
          (map (\<lambda>e. projr (loadResultOf x srcOptions sm e)) rest)"
      using Inr by simp
    show ?thesis
      unfolding step Cons.IH same cond fold afterReads_Cons ..
  qed
qed

lemma loadSlots_eq:
  assumes "set order \<subseteq> {0..<length entries}" "length slots = length entries"
  shows "loadSlots x srcOptions entries order slots sm =
     (if \<exists>i \<in> set order. isl (loadResultOf x srcOptions sm (entries ! i)) then Inl AssertionFailed
      else Inr (map (\<lambda>j. if j \<in> set order then projr (loadResultOf x srcOptions sm (entries ! j))
                           else slots ! j) [0..<length entries],
                afterReads sm (map (\<lambda>i. entries ! i) order)))"
  using assms
proof (induction order arbitrary: slots sm)
  case Nil
  then have "map ((!) slots) [0..<length entries] = slots" by (metis map_nth)
  then show ?case by simp
next
  case (Cons i rest)
  have same: "loadResultOf x srcOptions (afterReads sm [entries ! i]) = loadResultOf x srcOptions sm"
    by (rule loadResultOf_cong) simp
  have i: "i < length entries" using Cons.prems by simp
  show ?case
  proof (cases "loadResultOf x srcOptions sm (entries ! i)")
    case (Inl f)
    then have "f = AssertionFailed"
      unfolding loadResultOf_def by (rule loadAndParse_failure)
    then show ?thesis using Inl by (simp add: loadAndParse_pair)
  next
    case (Inr r)
    have len: "length (slots[i := r]) = length entries" using Cons.prems by simp
    have rest: "set rest \<subseteq> {0..<length entries}" using Cons.prems by simp
    have step: "loadSlots x srcOptions entries (i # rest) slots sm =
        loadSlots x srcOptions entries rest (slots[i := r]) (afterReads sm [entries ! i])"
      using Inr by (simp add: loadAndParse_pair)
    have slots_eq: "map (\<lambda>j. if j \<in> set rest then projr (loadResultOf x srcOptions sm (entries ! j))
                           else slots[i := r] ! j) [0..<length entries] =
        map (\<lambda>j. if j \<in> set (i # rest) then projr (loadResultOf x srcOptions sm (entries ! j))
                           else slots ! j) [0..<length entries]"
      using Inr i Cons.prems(2) by (auto simp: nth_list_update)
    show ?thesis
      unfolding step Cons.IH [OF rest len] same slots_eq
      using Inr by (simp add: afterReads_Cons)
  qed
qed

lemma set_pushLoop [simp]: "set (pushLoop when n) = {0..<n}"
  by (simp add: pushLoop_def)

lemma map_nth_fun: "map (\<lambda>j. f (xs ! j)) [0..<length xs] = map f xs"
  by (rule nth_equalityI) simp_all

lemma afterReads_set: "set es = set es' \<Longrightarrow> afterReads sm es = afterReads sm es'"
  by (simp add: afterReads_def readPaths_def)

lemma set_nth_all:
  assumes "set order = {0..<length xs}"
  shows "set (map (\<lambda>i. xs ! i) order) = set xs"
proof -
  have "set (map (\<lambda>i. xs ! i) order) = (\<lambda>i. xs ! i) ` {0..<length xs}"
    using assms by simp
  also have "\<dots> = set xs"
    by (metis map_nth set_map set_upt)
  finally show ?thesis .
qed

lemma loadSlots_pushLoop:
  "loadSlots x srcOptions entries (pushLoop when (length entries))
       (replicate (length entries) (LoadedTree None)) sm =
     (if \<exists>e \<in> set entries. isl (loadResultOf x srcOptions sm e) then Inl AssertionFailed
      else Inr (map (\<lambda>e. projr (loadResultOf x srcOptions sm e)) entries, afterReads sm entries))"
proof -
  let ?order = "pushLoop when (length entries)"
  have sub: "set ?order \<subseteq> {0..<length entries}" by simp
  have len: "length (replicate (length entries) (LoadedTree None)) = length entries" by simp
  have cond: "(\<exists>i \<in> set ?order. isl (loadResultOf x srcOptions sm (entries ! i))) =
              (\<exists>e \<in> set entries. isl (loadResultOf x srcOptions sm e))"
    unfolding set_pushLoop by (metis atLeastLessThan_iff in_set_conv_nth zero_le)
  have slots: "map (\<lambda>j. if j \<in> set ?order then projr (loadResultOf x srcOptions sm (entries ! j))
                         else replicate (length entries) (LoadedTree None) ! j) [0..<length entries] =
               map (\<lambda>e. projr (loadResultOf x srcOptions sm e)) entries"
    by (rule nth_equalityI) simp_all
  have reads: "afterReads sm (map (\<lambda>i. entries ! i) ?order) = afterReads sm entries"
    by (rule afterReads_set) (rule set_nth_all, simp)
  show ?thesis
    unfolding loadSlots_eq [OF sub len] cond slots reads ..
qed

subsection \<open>Merging the results and parsing the deferred buffers\<close>

lemma fill_slots:
  assumes "set order \<subseteq> {0..<length bs}" "length ys = length bs"
  shows "foldl (\<lambda>trees i. trees[i + length ts := f (bs ! i)]) (ts @ ys) order =
         ts @ map (\<lambda>j. if j \<in> set order then f (bs ! j) else ys ! j) [0..<length bs]"
  using assms
proof (induction order arbitrary: ys)
  case Nil
  then have "map ((!) ys) [0..<length bs] = ys" by (metis map_nth)
  then show ?case by simp
next
  case (Cons i rest)
  have i: "i < length bs" using Cons.prems by simp
  have upd: "(ts @ ys)[i + length ts := f (bs ! i)] = ts @ ys[i := f (bs ! i)]"
    by (simp add: list_update_append)
  have len: "length (ys[i := f (bs ! i)]) = length bs" using Cons.prems by simp
  have rest: "set rest \<subseteq> {0..<length bs}" using Cons.prems by simp
  have "map (\<lambda>j. if j \<in> set rest then f (bs ! j) else ys[i := f (bs ! i)] ! j) [0..<length bs] =
        map (\<lambda>j. if j \<in> set (i # rest) then f (bs ! j) else ys ! j) [0..<length bs]"
    using i Cons.prems(2) by (auto simp: nth_list_update)
  then show ?case
    by (simp add: upd Cons.IH [OF rest len])
qed

lemma fill_slots_pushLoop:
  "foldl (\<lambda>trees i. trees[i + length ts := f (bs ! i)])
     (ts @ replicate (length bs) None) (pushLoop when (length bs)) = ts @ map f bs"
proof -
  have sub: "set (pushLoop when (length bs)) \<subseteq> {0..<length bs}" by simp
  have len: "length (replicate (length bs) None) = length bs" by simp
  have "map (\<lambda>j. if j \<in> set (pushLoop when (length bs)) then f (bs ! j)
                   else replicate (length bs) None ! j) [0..<length bs] = map f bs"
    by (rule nth_equalityI) simp_all
  then show ?thesis
    unfolding fill_slots [OF sub len] by simp
qed

lemma deferred_sequential:
  "foldl (\<lambda>acc buffer. acc\<lparr>syntaxTrees := syntaxTrees acc @
                             [parseDeferred x (inheritedMacros acc) buffer]\<rparr>) L bs =
   L\<lparr>syntaxTrees := syntaxTrees L @ map (parseDeferred x (inheritedMacros L)) bs\<rparr>"
  by (induction bs arbitrary: L) simp_all

lemma parseThreaded_eq:
  "parseThreaded x srcOptions when1 when2 entries L sm = parseSequential x srcOptions entries L sm"
proof (cases "\<exists>e \<in> set entries. isl (loadResultOf x srcOptions sm e)")
  case True
  then show ?thesis
    by (simp add: parseThreaded_def parseSequential_def loadSlots_pushLoop loadSequential_eq)
next
  case False
  define L1 where "L1 = foldl handleLoadResult L (map (\<lambda>e. projr (loadResultOf x srcOptions sm e)) entries)"
  define L2 where "L2 = parseSingleUnit x srcOptions (singleUnitBuffers L1) L1"
  have seq: "parseSequential x srcOptions entries L sm =
      Inr (L2\<lparr>syntaxTrees := syntaxTrees L2 @
                 map (parseDeferred x (inheritedMacros L2)) (deferredLibBuffers L2)\<rparr>,
           afterReads sm entries)"
    using False
    by (simp add: parseSequential_def loadSequential_eq deferred_sequential L1_def L2_def Let_def)
  have par: "parseThreaded x srcOptions when1 when2 entries L sm =
      Inr (L2\<lparr>syntaxTrees :=
             foldl (\<lambda>trees i. trees[i + length (syntaxTrees L2) :=
                      parseDeferred x (inheritedMacros L2) (deferredLibBuffers L2 ! i)])
               (syntaxTrees L2 @ replicate (length (deferredLibBuffers L2)) None)
               (pushLoop when2 (length (deferredLibBuffers L2)))\<rparr>,
           afterReads sm entries)"
    using False
    by (simp add: parseThreaded_def loadSlots_pushLoop L1_def L2_def Let_def)
  show ?thesis
    unfolding seq par fill_slots_pushLoop ..
qed

lemma eagerTrees_simps [simp]:
  "eagerTrees [] = []"
  "eagerTrees (Inl f # rs) = eagerTrees rs"
  "eagerTrees (Inr (LoadedTree t) # rs) = t # eagerTrees rs"
  "eagerTrees (Inr (LoadedBuffer b d) # rs) = eagerTrees rs"
  "eagerTrees (Inr (LoadError e c) # rs) = eagerTrees rs"
  by (simp_all add: eagerTrees_def)

lemma singleUnitOf_simps [simp]:
  "singleUnitOf [] = []"
  "singleUnitOf (Inl f # rs) = singleUnitOf rs"
  "singleUnitOf (Inr (LoadedTree t) # rs) = singleUnitOf rs"
  "singleUnitOf (Inr (LoadedBuffer b False) # rs) = b # singleUnitOf rs"
  "singleUnitOf (Inr (LoadedBuffer b True) # rs) = singleUnitOf rs"
  "singleUnitOf (Inr (LoadError e c) # rs) = singleUnitOf rs"
  by (simp_all add: singleUnitOf_def)

lemma deferredOf_simps [simp]:
  "deferredOf [] = []"
  "deferredOf (Inl f # rs) = deferredOf rs"
  "deferredOf (Inr (LoadedTree t) # rs) = deferredOf rs"
  "deferredOf (Inr (LoadedBuffer b False) # rs) = deferredOf rs"
  "deferredOf (Inr (LoadedBuffer b True) # rs) = b # deferredOf rs"
  "deferredOf (Inr (LoadError e c) # rs) = deferredOf rs"
  by (simp_all add: deferredOf_def)

lemma errorsOf_simps [simp]:
  "errorsOf [] = []"
  "errorsOf (Inl f # rs) = errorsOf rs"
  "errorsOf (Inr (LoadedTree t) # rs) = errorsOf rs"
  "errorsOf (Inr (LoadedBuffer b d) # rs) = errorsOf rs"
  "errorsOf (Inr (LoadError e c) # rs) = (path e, c) # errorsOf rs"
  by (simp_all add: errorsOf_def)

lemma handleLoadResult_simps:
  "handleLoadResult L (LoadedTree t) = L\<lparr>syntaxTrees := syntaxTrees L @ [t]\<rparr>"
  "handleLoadResult L (LoadedBuffer b False) = L\<lparr>singleUnitBuffers := singleUnitBuffers L @ [b]\<rparr>"
  "handleLoadResult L (LoadedBuffer b True) = L\<lparr>deferredLibBuffers := deferredLibBuffers L @ [b]\<rparr>"
  "handleLoadResult L (LoadError e c) = L\<lparr>errorList := errorList L @ [(path e, c)]\<rparr>"
  by (simp_all add: handleLoadResult_def)

lemma merge_eq:
  "foldl handleLoadResult L rs =
     L\<lparr>syntaxTrees := syntaxTrees L @ eagerTrees (map Inr rs),
       singleUnitBuffers := singleUnitBuffers L @ singleUnitOf (map Inr rs),
       deferredLibBuffers := deferredLibBuffers L @ deferredOf (map Inr rs),
       errorList := errorList L @ errorsOf (map Inr rs)\<rparr>"
proof (induction rs arbitrary: L)
  case Nil
  then show ?case by simp
next
  case (Cons r rs)
  show ?case
  proof (cases r)
    case (LoadedTree t)
    then show ?thesis by (simp add: Cons.IH handleLoadResult_simps)
  next
    case (LoadedBuffer b d)
    then show ?thesis by (cases d) (simp_all add: Cons.IH handleLoadResult_simps)
  next
    case (LoadError e c)
    then show ?thesis by (simp add: Cons.IH handleLoadResult_simps)
  qed
qed

lemma map_Inr_projr:
  "\<forall>e \<in> set es. \<not> isl (f e) \<Longrightarrow> map Inr (map (\<lambda>e. projr (f e)) es) = map f es"
  by (induction es) simp_all

lemma parseSequential_numThreads:
  "parseSequential x (srcOptions\<lparr>numThreads := n\<rparr>) entries L sm =
   parseSequential x srcOptions entries L sm"
proof -
  have "loadResultOf x (srcOptions\<lparr>numThreads := n\<rparr>) sm = loadResultOf x srcOptions sm"
    by (rule ext) (simp add: loadResultOf_def loadAndParse_numThreads)
  then show ?thesis
    by (simp add: parseSequential_def loadSequential_eq parseSingleUnit_def)
qed

lemma parseSources_eq:
  "parseSources x srcOptions when1 when2 s sm =
     parseSequential x srcOptions (fileEntries s)
       \<lparr>syntaxTrees = [], singleUnitBuffers = [], deferredLibBuffers = [],
        inheritedMacros = [], errorList = errors s\<rparr> sm"
  by (simp add: parseSources_def parseThreaded_eq Let_def)

lemma parseSequential_closed:
  assumes "\<forall>e \<in> set entries. \<not> isl (loadResultOf x srcOptions sm e)"
  shows "parseSequential x srcOptions entries
           \<lparr>syntaxTrees = [], singleUnitBuffers = [], deferredLibBuffers = [],
            inheritedMacros = [], errorList = errs\<rparr> sm =
         (let results = map (loadResultOf x srcOptions sm) entries;
              single = singleUnitOf results;
              unit = (if onlyLint srcOptions then (fromBuffers x single)\<lparr>isLibrary := True\<rparr>
                      else fromBuffers x single)
          in Inr (\<lparr>syntaxTrees = expectedTrees x srcOptions sm entries,
                    singleUnitBuffers = single,
                    deferredLibBuffers = deferredOf results,
                    inheritedMacros = (if single = [] then [] else definedMacros unit),
                    errorList = errs @ errorsOf results\<rparr>, afterReads sm entries))"
proof -
  have no: "\<not> (\<exists>e \<in> set entries. isl (loadResultOf x srcOptions sm e))"
    using assms by simp
  have results: "map Inr (map (\<lambda>e. projr (loadResultOf x srcOptions sm e)) entries) =
                 map (loadResultOf x srcOptions sm) entries"
    using assms by (rule map_Inr_projr)
  have expected: "(\<lambda>e. fst (loadAndParse x e srcOptions sm)) = loadResultOf x srcOptions sm"
    by (rule ext) (simp add: loadResultOf_def)
  show ?thesis
    unfolding parseSequential_def loadSequential_eq if_not_P [OF no] merge_eq results
      deferred_sequential expectedTrees_def expected
    by (simp add: parseSingleUnit_def parseDeferred_def Let_def)
qed

lemma expectedTrees_no_null: "None \<notin> set (expectedTrees x srcOptions sm entries)"
proof -
  have "None \<notin> set (eagerTrees (map (loadResultOf x srcOptions sm) entries))"
  proof (induction entries)
    case Nil
    then show ?case by (simp add: eagerTrees_def)
  next
    case (Cons e es)
    then show ?case
      using loadResultOf_tree [of x srcOptions sm e]
      by (cases "loadResultOf x srcOptions sm e"; simp)
         (rename_tac r, case_tac r; auto)
  qed
  moreover have "(\<lambda>e. fst (loadAndParse x e srcOptions sm)) = loadResultOf x srcOptions sm"
    by (rule ext) (simp add: loadResultOf_def)
  ultimately show ?thesis
    by (auto simp: expectedTrees_def Let_def)
qed

lemma errorsOf_results:
  "errorsOf (map (loadResultOf x srcOptions sm) es) =
     map (\<lambda>e. (path e, no_such_file)) (filter (\<lambda>e. map_of (files sm) (path e) = None) es)"
proof (induction es)
  case Nil
  then show ?case by simp
next
  case (Cons e es)
  show ?case
  proof (cases "map_of (files sm) (path e)")
    case None
    then show ?thesis
      by (simp add: loadResultOf_unreadable Cons.IH)
  next
    case (Some content)
    show ?thesis
    proof (cases "isl (loadResultOf x srcOptions sm e)")
      case True
      then obtain f where "loadResultOf x srcOptions sm e = Inl f"
        by (cases "loadResultOf x srcOptions sm e") auto
      then show ?thesis using Some by (simp add: Cons.IH)
    next
      case False
      with Some loadResultOf_readable [of sm e x srcOptions]
      show ?thesis by (auto simp: Cons.IH)
    qed
  qed
qed

lemma filter_single:
  assumes "i < length es" "P (es ! i)" "\<forall>j < length es. j \<noteq> i \<longrightarrow> \<not> P (es ! j)"
  shows "filter P es = [es ! i]"
proof -
  have split: "es = take i es @ es ! i # drop (Suc i) es"
    using assms(1) by (rule id_take_nth_drop)
  have before: "filter P (take i es) = []"
    using assms by (auto simp: filter_empty_conv in_set_conv_nth)
  have after: "filter P (drop (Suc i) es) = []"
    using assms by (auto simp: filter_empty_conv in_set_conv_nth)
  have "filter P es = filter P (take i es @ es ! i # drop (Suc i) es)"
    using split by simp
  also have "\<dots> = [es ! i]"
    using before after assms(2) by simp
  finally show ?thesis .
qed

lemma count_results:
  "\<forall>r \<in> set rs. \<not> isl r \<Longrightarrow>
   length (eagerTrees rs) + length (singleUnitOf rs) + length (deferredOf rs) +
     length (errorsOf rs) = length rs"
proof (induction rs)
  case Nil
  then show ?case by simp
next
  case (Cons r rs)
  then obtain v where v: "r = Inr v" by (cases r) auto
  show ?case
  proof (cases v)
    case (LoadedTree t)
    then show ?thesis using Cons v by simp
  next
    case (LoadedBuffer b d)
    then show ?thesis using Cons v by (cases d) simp_all
  next
    case (LoadError e c)
    then show ?thesis using Cons v by simp
  qed
qed

lemma singleUnitOf_results:
  "\<not> singleUnit srcOptions \<Longrightarrow> singleUnitOf (map (loadResultOf x srcOptions sm) es) = []"
proof (induction es)
  case Nil
  then show ?case by simp
next
  case (Cons e es)
  then show ?case
    by (cases "map_of (files sm) (path e)")
      (simp_all add: loadResultOf_def loadAndParse_def readSource_def Let_def)
qed

lemma length_expectedTrees:
  "length (expectedTrees x srcOptions sm es) =
     length (eagerTrees (map (loadResultOf x srcOptions sm) es)) +
     (if singleUnitOf (map (loadResultOf x srcOptions sm) es) = [] then 0 else 1) +
     length (deferredOf (map (loadResultOf x srcOptions sm) es))"
proof -
  have "(\<lambda>e. fst (loadAndParse x e srcOptions sm)) = loadResultOf x srcOptions sm"
    by (rule ext) (simp add: loadResultOf_def)
  then show ?thesis
    by (simp add: expectedTrees_def Let_def)
qed

subsection \<open>The search for a missing name\<close>

lemma acceptFirst_Nil [simp]: "acceptFirst sm [] = (None, sm)"
  by (simp add: acceptFirst_def)

lemma acceptFirst_Cons:
  "acceptFirst sm (q # qs) =
     (if isCached sm q then acceptFirst sm qs
      else (case readSource sm q None of
              (Inr buffer, sm1) \<Rightarrow> (Some buffer, sm1)
            | (Inl code, sm1) \<Rightarrow> acceptFirst sm1 qs))"
  by (cases "map_of (files sm) q") (simp_all add: acceptFirst_def readSource_def)

lemma acceptFirst_append:
  "acceptFirst sm (ps @ qs) =
     (case acceptFirst sm ps of
        (Some buffer, sm1) \<Rightarrow> (Some buffer, sm1)
      | (None, sm1) \<Rightarrow> acceptFirst sm1 qs)"
proof (induction ps)
  case Nil
  then show ?case by simp
next
  case (Cons p ps)
  show ?case
  proof (cases "map_of (files sm) p")
    case None
    then have "readSource sm p None = (Inl no_such_file, sm)"
      by (simp add: readSource_def)
    then show ?thesis
      by (simp add: acceptFirst_Cons Cons.IH)
  next
    case (Some content)
    then have "readSource sm p None =
        (Inr \<lparr>bufData = content, bufLibrary = None, bufFile = p\<rparr>, sm\<lparr>cache := insert p (cache sm)\<rparr>)"
      by (simp add: readSource_def)
    then show ?thesis
      by (simp add: acceptFirst_Cons Cons.IH)
  qed
qed

lemma tryExtensions_acceptFirst:
  "tryExtensions x p exts sm = acceptFirst sm (extensionPaths x p exts)"
proof (induction exts arbitrary: p)
  case Nil
  then show ?case by simp
next
  case (Cons ext rest)
  show ?case
  proof (cases "map_of (files sm) (replace_extension x p ext)")
    case None
    then have "readSource sm (replace_extension x p ext) None = (Inl no_such_file, sm)"
      by (simp add: readSource_def)
    then show ?thesis
      by (simp add: acceptFirst_Cons Cons.IH Let_def)
  next
    case (Some content)
    then have "readSource sm (replace_extension x p ext) None =
        (Inr \<lparr>bufData = content, bufLibrary = None, bufFile = replace_extension x p ext\<rparr>,
         sm\<lparr>cache := insert (replace_extension x p ext) (cache sm)\<rparr>)"
      by (simp add: readSource_def)
    then show ?thesis
      by (simp add: acceptFirst_Cons Cons.IH Let_def)
  qed
qed

lemma searchForName_acceptFirst:
  "searchForName x dirs exts name sm = acceptFirst sm (candidatePaths x dirs exts name)"
proof (induction dirs arbitrary: sm)
  case Nil
  then show ?case by (simp add: candidatePaths_def)
next
  case (Cons dir rest)
  have "candidatePaths x (dir # rest) exts name =
        extensionPaths x (path_append x dir name) exts @ candidatePaths x rest exts name"
    by (simp add: candidatePaths_def)
  then show ?case
    by (simp add: acceptFirst_append tryExtensions_acceptFirst Cons.IH
        split: prod.splits option.splits)
qed

lemma acceptFirst_None:
  "fst (acceptFirst sm candidates) = None \<Longrightarrow> acceptFirst sm candidates = (None, sm)"
  by (auto simp: acceptFirst_def readSource_def split: option.splits)

lemma acceptFirst_Some:
  assumes "acceptFirst sm candidates = (Some buffer, sm1)"
  shows "bufFile buffer \<in> set candidates \<and> bufFile buffer \<notin> cache sm \<and>
         map_of (files sm) (bufFile buffer) = Some (bufData buffer) \<and>
         bufLibrary buffer = None \<and>
         sm1 = sm\<lparr>cache := insert (bufFile buffer) (cache sm)\<rparr>"
proof (cases "find (\<lambda>q. \<not> isCached sm q \<and> map_of (files sm) q \<noteq> None) candidates")
  case None
  with assms show ?thesis by (simp add: acceptFirst_def)
next
  case (Some q)
  then have q: "q \<in> set candidates" "\<not> isCached sm q" "map_of (files sm) q \<noteq> None"
    by (auto simp: find_Some_iff)
  then obtain content where content: "map_of (files sm) q = Some content" by auto
  with assms Some q show ?thesis
    by (auto simp: acceptFirst_def readSource_def isCached_def)
qed

lemma unread_insert:
  assumes "q \<notin> cache sm" "map_of (files sm) q = Some content"
  shows "Suc (unread (sm\<lparr>cache := insert q (cache sm)\<rparr>)) = unread sm"
proof -
  have fin: "finite (fst ` set (files sm) - cache sm)" by simp
  have "(q, content) \<in> set (files sm)"
    using assms(2) by (rule map_of_SomeD)
  then have "q \<in> fst ` set (files sm)" by force
  then have mem: "q \<in> fst ` set (files sm) - cache sm"
    using assms(1) by simp
  have eq: "fst ` set (files sm) - insert q (cache sm) = (fst ` set (files sm) - cache sm) - {q}"
    by auto
  have "Suc (card ((fst ` set (files sm) - cache sm) - {q})) = card (fst ` set (files sm) - cache sm)"
    using fin mem by (rule card_Suc_Diff1)
  then show ?thesis
    by (simp add: unread_def eq)
qed

lemma discoverName_fail:
  assumes "fst (searchForName x (searchDirectories s) (searchExtensions s) name (sourceManager d)) = None"
  shows "discoverName x s macros d name = d"
proof -
  have "searchForName x (searchDirectories s) (searchExtensions s) name (sourceManager d) =
        (None, sourceManager d)"
    using assms unfolding searchForName_acceptFirst by (rule acceptFirst_None)
  then show ?thesis by (simp add: discoverName_def)
qed

lemma discoverName_load:
  assumes "searchForName x (searchDirectories s) (searchExtensions s) name (sourceManager d) =
           (Some buffer, sm1)"
  shows "loadedTrees (discoverName x s macros d name) =
           loadedTrees d @ [Some ((fromBuffer x buffer macros)\<lparr>isLibrary := True\<rparr>)] \<and>
         sourceManager (discoverName x s macros d name) = sm1 \<and>
         files sm1 = files (sourceManager d) \<and>
         Suc (unread sm1) = unread (sourceManager d) \<and>
         bufLibrary buffer = None \<and>
         bufFile buffer \<in> set (candidatePaths x (searchDirectories s) (searchExtensions s) name)"
proof -
  have acc: "acceptFirst (sourceManager d)
               (candidatePaths x (searchDirectories s) (searchExtensions s) name) = (Some buffer, sm1)"
    using assms by (simp add: searchForName_acceptFirst)
  note props = acceptFirst_Some [OF acc]
  have "Suc (unread sm1) = unread (sourceManager d)"
    using props unread_insert [of "bufFile buffer" "sourceManager d" "bufData buffer"] by simp
  moreover have "files sm1 = files (sourceManager d)"
    using props by simp
  ultimately show ?thesis
    using props assms by (simp add: discoverName_def Let_def)
qed

subsection \<open>Rounds of discovery\<close>


lemma set_hashOrder [simp]: "set (hashOrder x names) = set names"
  by (simp add: hashOrder_def)

lemma length_hashOrder [simp]: "length (hashOrder x names) = length names"
  by (simp add: hashOrder_def)

lemma hashOrder_single [simp]: "hashOrder x [name] = [name]"
  by (simp add: hashOrder_def)

lemma discoverRound:
  "\<exists>new. loadedTrees (foldl (discoverName x s macros) d names) = loadedTrees d @ new \<and>
         length new \<le> length names \<and>
         length new + unread (sourceManager (foldl (discoverName x s macros) d names)) =
           unread (sourceManager d) \<and>
         files (sourceManager (foldl (discoverName x s macros) d names)) = files (sourceManager d) \<and>
         (\<forall>t \<in> set new. \<exists>buffer. t = Some ((fromBuffer x buffer macros)\<lparr>isLibrary := True\<rparr>) \<and>
                                  bufLibrary buffer = None) \<and>
         (new = [] \<longrightarrow> foldl (discoverName x s macros) d names = d)"
proof (induction names arbitrary: d)
  case Nil
  then show ?case by simp
next
  case (Cons name rest)
  let ?d1 = "discoverName x s macros d name"
  obtain new where new:
    "loadedTrees (foldl (discoverName x s macros) ?d1 rest) = loadedTrees ?d1 @ new"
    "length new \<le> length rest"
    "length new + unread (sourceManager (foldl (discoverName x s macros) ?d1 rest)) =
       unread (sourceManager ?d1)"
    "files (sourceManager (foldl (discoverName x s macros) ?d1 rest)) = files (sourceManager ?d1)"
    "\<forall>t \<in> set new. \<exists>buffer. t = Some ((fromBuffer x buffer macros)\<lparr>isLibrary := True\<rparr>) \<and>
                                  bufLibrary buffer = None"
    "new = [] \<longrightarrow> foldl (discoverName x s macros) ?d1 rest = ?d1"
    using Cons.IH [of ?d1] by blast
  show ?case
  proof (cases "searchForName x (searchDirectories s) (searchExtensions s) name (sourceManager d)")
    case (Pair found sm1)
    show ?thesis
    proof (cases found)
      case None
      then have same: "?d1 = d"
        using Pair by (simp add: discoverName_fail)
      show ?thesis
        using new [unfolded same]
        by (intro exI [of _ new]) (simp add: same)
    next
      case (Some buffer)
      note load = discoverName_load [OF Pair [unfolded Some], of macros]
      show ?thesis
        using new load
        by (intro exI [of _ "Some ((fromBuffer x buffer macros)\<lparr>isLibrary := True\<rparr>) # new"]) auto
    qed
  qed
qed

lemma foldl_idle: "\<forall>n \<in> set names. f d n = d \<Longrightarrow> foldl f d names = d"
  by (induction names) simp_all

lemma discoverRound_idle:
  "loadedTrees (foldl (discoverName x s macros) d names) = loadedTrees d \<Longrightarrow>
   \<forall>n \<in> set names. discoverName x s macros d n = d"
proof (induction names)
  case Nil
  then show ?case by simp
next
  case (Cons name rest)
  let ?d1 = "discoverName x s macros d name"
  from discoverRound [of x s macros d "[name]"] obtain new1 where
    first: "loadedTrees ?d1 = loadedTrees d @ new1" and same1: "new1 = [] \<longrightarrow> ?d1 = d"
    by auto
  from discoverRound [of x s macros ?d1 rest] obtain new where
    later: "loadedTrees (foldl (discoverName x s macros) ?d1 rest) = loadedTrees ?d1 @ new"
    by auto
  have "loadedTrees d @ new1 @ new = loadedTrees d"
    using Cons.prems first later by simp
  then have "new1 = []" by simp
  then have same: "?d1 = d" using same1 by simp
  then have "loadedTrees (foldl (discoverName x s macros) d rest) = loadedTrees d"
    using Cons.prems by simp
  then have "\<forall>n \<in> set rest. discoverName x s macros d n = d"
    by (rule Cons.IH)
  then show ?case using same by simp
qed

lemma discoverLoop_returns:
  "\<exists>r new. discoverLoop x s macros names d = Some r \<and>
           loadedTrees r = loadedTrees d @ new \<and>
           length new + unread (sourceManager r) = unread (sourceManager d) \<and>
           files (sourceManager r) = files (sourceManager d) \<and>
           (\<forall>t \<in> set new. \<exists>buffer. t = Some ((fromBuffer x buffer macros)\<lparr>isLibrary := True\<rparr>) \<and>
                                    bufLibrary buffer = None)"
proof (induction "2 * unread (sourceManager d) + (if nextMissingNames d = [] then 0 else 1 :: nat)"
    arbitrary: d names rule: less_induct)
  case less
  define d1 where "d1 = foldl (discoverName x s macros) d (hashOrder x names)"
  obtain new where new:
    "loadedTrees d1 = loadedTrees d @ new"
    "length new + unread (sourceManager d1) = unread (sourceManager d)"
    "files (sourceManager d1) = files (sourceManager d)"
    "\<forall>t \<in> set new. \<exists>buffer. t = Some ((fromBuffer x buffer macros)\<lparr>isLibrary := True\<rparr>) \<and>
                                  bufLibrary buffer = None"
    "new = [] \<longrightarrow> d1 = d"
    unfolding d1_def using discoverRound [of x s macros d "hashOrder x names"] by blast
  show ?case
  proof (cases "nextMissingNames d1 = []")
    case True
    have "discoverLoop x s macros names d = Some d1"
      using True by (subst discoverLoop.simps) (simp add: d1_def Let_def)
    then show ?thesis using new by blast
  next
    case False
    let ?d2 = "d1\<lparr>nextMissingNames := []\<rparr>"
    have step: "discoverLoop x s macros names d =
                discoverLoop x s macros (nextMissingNames d1) ?d2"
      using False by (subst discoverLoop.simps) (simp add: d1_def Let_def)
    have smaller: "2 * unread (sourceManager ?d2) + (if nextMissingNames ?d2 = [] then 0 else 1 :: nat)
        < 2 * unread (sourceManager d) + (if nextMissingNames d = [] then 0 else 1)"
    proof (cases "new = []")
      case True
      then have "d1 = d" using new by simp
      then show ?thesis using False by simp
    next
      case False
      then have "0 < length new" by simp
      then have "unread (sourceManager d1) < unread (sourceManager d)"
        using new(2) by linarith
      then show ?thesis by simp
    qed
    obtain r new2 where r:
      "discoverLoop x s macros (nextMissingNames d1) ?d2 = Some r"
      "loadedTrees r = loadedTrees ?d2 @ new2"
      "length new2 + unread (sourceManager r) = unread (sourceManager ?d2)"
      "files (sourceManager r) = files (sourceManager ?d2)"
      "\<forall>t \<in> set new2. \<exists>buffer. t = Some ((fromBuffer x buffer macros)\<lparr>isLibrary := True\<rparr>) \<and>
                                  bufLibrary buffer = None"
      using less [OF smaller, of "nextMissingNames d1"] by blast
    show ?thesis
      using r new unfolding step
      by (intro exI [of _ r] exI [of _ "new @ new2"]) auto
  qed
qed

lemma discover_returns:
  assumes "None \<notin> set trees"
  shows "\<exists>d new. discover x s macros trees sm = Some (Inr d) \<and>
           loadedTrees d = trees @ new \<and>
           length new + unread (sourceManager d) = unread sm \<and>
           files (sourceManager d) = files sm \<and>
           (\<forall>t \<in> set new. \<exists>buffer. t = Some ((fromBuffer x buffer macros)\<lparr>isLibrary := True\<rparr>) \<and>
                                    bufLibrary buffer = None)"
proof -
  define known where "known = foldl (\<lambda>k t. addKnownNames (the t) k) {} trees"
  define missingNames where
    "missingNames = foldl (\<lambda>m t. findMissingNames (the t) known m) [] trees"
  define d0 where "d0 = \<lparr>loadedTrees = trees, knownNames = known, nextMissingNames = [],
                          sourceManager = sm\<rparr>"
  obtain r new where r:
    "discoverLoop x s macros missingNames d0 = Some r"
    "loadedTrees r = loadedTrees d0 @ new"
    "length new + unread (sourceManager r) = unread (sourceManager d0)"
    "files (sourceManager r) = files (sourceManager d0)"
    "\<forall>t \<in> set new. \<exists>buffer. t = Some ((fromBuffer x buffer macros)\<lparr>isLibrary := True\<rparr>) \<and>
                                  bufLibrary buffer = None"
    using discoverLoop_returns [of x s macros missingNames d0] by blast
  have "discover x s macros trees sm = Some (Inr r)"
    using assms r(1)
    by (simp add: discover_def Let_def known_def missingNames_def d0_def)
  then show ?thesis
    using r by (intro exI [of _ r] exI [of _ new]) (simp add: d0_def)
qed

lemma loadAndParseSources_aborts:
  assumes "\<exists>e \<in> set (fileEntries s). isl (loadResultOf x srcOptions sm e)"
  shows "loadAndParseSources x srcOptions when1 when2 s sm = Some (Inl AssertionFailed)"
  using assms
  by (simp add: loadAndParseSources_def parseSources_eq parseSequential_def loadSequential_eq)

lemma loadAndParseSources_returns:
  assumes "\<forall>e \<in> set (fileEntries s). \<not> isl (loadResultOf x srcOptions sm e)"
  shows "\<exists>L new sm'.
           parseSources x srcOptions when1 when2 s sm = Inr (L, afterReads sm (fileEntries s)) \<and>
           syntaxTrees L = expectedTrees x srcOptions sm (fileEntries s) \<and>
           singleUnitBuffers L = singleUnitOf (map (loadResultOf x srcOptions sm) (fileEntries s)) \<and>
           deferredLibBuffers L = deferredOf (map (loadResultOf x srcOptions sm) (fileEntries s)) \<and>
           errorList L = errors s @ errorsOf (map (loadResultOf x srcOptions sm) (fileEntries s)) \<and>
           loadAndParseSources x srcOptions when1 when2 s sm =
             Some (Inr (syntaxTrees L @ new, s\<lparr>errors := errorList L\<rparr>, sm')) \<and>
           files sm' = files sm \<and>
           (searchDirectories s = [] \<longrightarrow> new = [] \<and> sm' = afterReads sm (fileEntries s)) \<and>
           (\<forall>t \<in> set new. \<exists>buffer.
               t = Some ((fromBuffer x buffer (inheritedMacros L))\<lparr>isLibrary := True\<rparr>) \<and>
               bufLibrary buffer = None)"
proof -
  define results where "results = map (loadResultOf x srcOptions sm) (fileEntries s)"
  define unit where "unit = (if onlyLint srcOptions
      then (fromBuffers x (singleUnitOf results))\<lparr>isLibrary := True\<rparr>
      else fromBuffers x (singleUnitOf results))"
  define L where "L = \<lparr>syntaxTrees = expectedTrees x srcOptions sm (fileEntries s),
      singleUnitBuffers = singleUnitOf results,
      deferredLibBuffers = deferredOf results,
      inheritedMacros = (if singleUnitOf results = [] then [] else definedMacros unit),
      errorList = errors s @ errorsOf results\<rparr>"
  have parse: "parseSources x srcOptions when1 when2 s sm = Inr (L, afterReads sm (fileEntries s))"
    unfolding parseSources_eq parseSequential_closed [OF assms]
    by (simp add: Let_def L_def results_def unit_def)
  have fields: "syntaxTrees L = expectedTrees x srcOptions sm (fileEntries s)"
    "singleUnitBuffers L = singleUnitOf results" "deferredLibBuffers L = deferredOf results"
    "errorList L = errors s @ errorsOf results"
    by (simp_all add: L_def)
  show ?thesis
  proof (cases "searchDirectories s = []")
    case True
    have "loadAndParseSources x srcOptions when1 when2 s sm =
          Some (Inr (syntaxTrees L @ [], s\<lparr>errors := errorList L\<rparr>, afterReads sm (fileEntries s)))"
      using True by (simp add: loadAndParseSources_def parse)
    then show ?thesis
      using parse fields True unfolding results_def
      by (intro exI [of _ L] exI [of _ "[]"] exI [of _ "afterReads sm (fileEntries s)"]) simp
  next
    case False
    have nonull: "None \<notin> set (syntaxTrees L)"
      unfolding fields by (rule expectedTrees_no_null)
    obtain d new where d:
      "discover x s (inheritedMacros L) (syntaxTrees L) (afterReads sm (fileEntries s)) = Some (Inr d)"
      "loadedTrees d = syntaxTrees L @ new"
      "files (sourceManager d) = files (afterReads sm (fileEntries s))"
      "\<forall>t \<in> set new. \<exists>buffer.
          t = Some ((fromBuffer x buffer (inheritedMacros L))\<lparr>isLibrary := True\<rparr>) \<and>
          bufLibrary buffer = None"
      using discover_returns [OF nonull, of x s "inheritedMacros L" "afterReads sm (fileEntries s)"]
      by blast
    have "loadAndParseSources x srcOptions when1 when2 s sm =
          Some (Inr (syntaxTrees L @ new, s\<lparr>errors := errorList L\<rparr>, sourceManager d))"
      using False d(1,2) by (simp add: loadAndParseSources_def parse)
    then show ?thesis
      using parse fields False d unfolding results_def
      by (intro exI [of _ L] exI [of _ new] exI [of _ "sourceManager d"]) simp
  qed
qed

lemma loadAndParseSources_numThreads:
  "loadAndParseSources x (srcOptions\<lparr>numThreads := n\<rparr>) when1 when2 s sm =
   loadAndParseSources x srcOptions when1' when2' s sm"
  by (simp add: loadAndParseSources_def parseSources_eq parseSequential_numThreads)

lemma demo_entries:
  "fileEntries demo_loader =
     [\<lparr>path = ''top.sv'', isLibraryFile = False, library = None, libraryRank = 0, secondLib = None\<rparr>,
      \<lparr>path = ''missing.sv'', isLibraryFile = False, library = None, libraryRank = 0, secondLib = None\<rparr>,
      \<lparr>path = ''a.sv'', isLibraryFile = True, library = Some ''L'', libraryRank = 1, secondLib = None\<rparr>,
      \<lparr>path = ''b.sv'', isLibraryFile = True, library = Some ''L'', libraryRank = 1, secondLib = None\<rparr>]"
  by code_simp

subsection \<open>The loop against the rounds of the spec\<close>










section \<open>The claims about loading, parsing and discovery\<close>

subsection \<open>C3: the assertion on the macro-inheriting path\<close>

text \<open>Claim C3 says that whenever \<^verbatim>\<open>loadAndParse\<close> reaches the branch that defers a
  buffer for macro inheritance, the entry is a library file, so that
  \<^verbatim>\<open>SLANG_ASSERT(entry.isLibraryFile)\<close> never fails, for every file entry and every
  combination of options. The branch is guarded by \<^verbatim>\<open>librariesInheritMacros\<close> alone: a
  direct file that can be read, with single-unit mode off and macro inheritance on, reaches
  the assertion and fails it, and the whole of \<^verbatim>\<open>loadAndParseSources\<close> stops there.\<close>

theorem assertion_fails_for_direct_file:
  "loadAndParse demo
     \<lparr>path = ''top.sv'', isLibraryFile = False, library = None, libraryRank = 0, secondLib = None\<rparr>
     (demo_options\<lparr>librariesInheritMacros := True\<rparr>) demo_manager =
     (Inl AssertionFailed, demo_manager\<lparr>cache := {''top.sv''}\<rparr>) \<and>
   loadAndParseSources demo (demo_options\<lparr>librariesInheritMacros := True\<rparr>) (\<lambda>i. i) (\<lambda>i. i)
     (addFiles demo ''top.sv'' (SourceLoader_init demo)) demo_manager = Some (Inl AssertionFailed)"
proof (rule conjI)
  show "loadAndParse demo
     \<lparr>path = ''top.sv'', isLibraryFile = False, library = None, libraryRank = 0, secondLib = None\<rparr>
     (demo_options\<lparr>librariesInheritMacros := True\<rparr>) demo_manager =
     (Inl AssertionFailed, demo_manager\<lparr>cache := {''top.sv''}\<rparr>)"
    by code_simp
  show "loadAndParseSources demo (demo_options\<lparr>librariesInheritMacros := True\<rparr>) (\<lambda>i. i) (\<lambda>i. i)
     (addFiles demo ''top.sv'' (SourceLoader_init demo)) demo_manager = Some (Inl AssertionFailed)"
    by (rule loadAndParseSources_aborts) code_simp
qed

subsection \<open>C4: the order of the trees, with and without the thread pool\<close>

text \<open>Claim C4: the trees come in a fixed order, first the trees parsed at once, in the
  order of the file entries, then the single-unit tree if there is one, then the trees of
  the deferred library buffers in the order of the file entries; and the thread pool
  branch, in which every index writes its own slot in whatever order the pool serves the
  indices, yields the same as the sequential branch. The first part of the statement is for
  any two schedules of the pool; the third says that the result of the whole call is the
  same for any number of threads and any schedules; the last that the trees returned start
  with the trees in the order of the spec, the trees found by discovery following them.\<close>

theorem threading_keeps_tree_order:
  "parseThreaded x srcOptions when1 when2 entries L sm = parseSequential x srcOptions entries L sm \<and>
   (\<forall>L' sm'. parseSequential x srcOptions entries
                 \<lparr>syntaxTrees = [], singleUnitBuffers = [], deferredLibBuffers = [],
                  inheritedMacros = [], errorList = errs\<rparr> sm = Inr (L', sm') \<longrightarrow>
             syntaxTrees L' = expectedTrees x srcOptions sm entries) \<and>
   loadAndParseSources x (srcOptions\<lparr>numThreads := n\<rparr>) when1 when2 s sm =
     loadAndParseSources x (srcOptions\<lparr>numThreads := Some 1\<rparr>) when1' when2' s sm \<and>
   (\<forall>trees s' sm'. loadAndParseSources x srcOptions when1 when2 s sm = Some (Inr (trees, s', sm')) \<longrightarrow>
      (\<exists>discovered. trees = expectedTrees x srcOptions sm (fileEntries s) @ discovered \<and>
                     (searchDirectories s = [] \<longrightarrow> discovered = [])))"
proof (intro conjI allI impI)
  show "parseThreaded x srcOptions when1 when2 entries L sm = parseSequential x srcOptions entries L sm"
    by (rule parseThreaded_eq)
next
  fix L' sm'
  assume a: "parseSequential x srcOptions entries
                 \<lparr>syntaxTrees = [], singleUnitBuffers = [], deferredLibBuffers = [],
                  inheritedMacros = [], errorList = errs\<rparr> sm = Inr (L', sm')"
  show "syntaxTrees L' = expectedTrees x srcOptions sm entries"
  proof (cases "\<exists>e \<in> set entries. isl (loadResultOf x srcOptions sm e)")
    case True
    then show ?thesis
      using a by (simp add: parseSequential_def loadSequential_eq)
  next
    case False
    then have "\<forall>e \<in> set entries. \<not> isl (loadResultOf x srcOptions sm e)" by simp
    from parseSequential_closed [OF this, of errs] a
    show ?thesis by (auto simp: Let_def)
  qed
next
  show "loadAndParseSources x (srcOptions\<lparr>numThreads := n\<rparr>) when1 when2 s sm =
        loadAndParseSources x (srcOptions\<lparr>numThreads := Some 1\<rparr>) when1' when2' s sm"
  proof -
    have "loadAndParseSources x (srcOptions\<lparr>numThreads := n\<rparr>) when1 when2 s sm =
          loadAndParseSources x srcOptions when1 when2 s sm"
      by (rule loadAndParseSources_numThreads)
    moreover have "loadAndParseSources x (srcOptions\<lparr>numThreads := Some 1\<rparr>) when1' when2' s sm =
          loadAndParseSources x srcOptions when1 when2 s sm"
      by (rule loadAndParseSources_numThreads)
    ultimately show ?thesis by simp
  qed
next
  fix trees s' sm'
  assume a: "loadAndParseSources x srcOptions when1 when2 s sm = Some (Inr (trees, s', sm'))"
  show "\<exists>discovered. trees = expectedTrees x srcOptions sm (fileEntries s) @ discovered \<and>
                      (searchDirectories s = [] \<longrightarrow> discovered = [])"
  proof (cases "\<exists>e \<in> set (fileEntries s). isl (loadResultOf x srcOptions sm e)")
    case True
    from loadAndParseSources_aborts [OF True, of when1 when2] a
    show ?thesis by simp
  next
    case False
    then have "\<forall>e \<in> set (fileEntries s). \<not> isl (loadResultOf x srcOptions sm e)" by simp
    from loadAndParseSources_returns [OF this, of when1 when2] a
    show ?thesis by auto
  qed
qed

theorem threading_keeps_tree_order_witness:
  "pushLoop (\<lambda>i. 3 - i) 4 = [3, 2, 1, 0] \<and>
   MinFilesForThreading demo \<le> length (fileEntries demo_loader) \<and>
   parseThreaded demo (demo_options\<lparr>singleUnit := True, librariesInheritMacros := True\<rparr>)
       (\<lambda>i. 3 - i) (\<lambda>i. 1 - i) (fileEntries demo_loader)
       \<lparr>syntaxTrees = [], singleUnitBuffers = [], deferredLibBuffers = [],
        inheritedMacros = [], errorList = []\<rparr> demo_manager =
     parseSequential demo (demo_options\<lparr>singleUnit := True, librariesInheritMacros := True\<rparr>)
       (fileEntries demo_loader)
       \<lparr>syntaxTrees = [], singleUnitBuffers = [], deferredLibBuffers = [],
        inheritedMacros = [], errorList = []\<rparr> demo_manager \<and>
   (\<exists>L' sm'. parseSequential demo (demo_options\<lparr>singleUnit := True, librariesInheritMacros := True\<rparr>)
       (fileEntries demo_loader)
       \<lparr>syntaxTrees = [], singleUnitBuffers = [], deferredLibBuffers = [],
        inheritedMacros = [], errorList = []\<rparr> demo_manager = Inr (L', sm') \<and>
      syntaxTrees L' =
        expectedTrees demo (demo_options\<lparr>singleUnit := True, librariesInheritMacros := True\<rparr>)
          demo_manager (fileEntries demo_loader)) \<and>
   map (map_option (\<lambda>t. (nodeMap t, isLibrary t)))
     (expectedTrees demo (demo_options\<lparr>singleUnit := True, librariesInheritMacros := True\<rparr>)
        demo_manager (fileEntries demo_loader)) =
     [Some ([''top''], False), Some ([''a''], True), Some ([''b''], True)] \<and>
   loadAndParseSources demo (demo_options\<lparr>numThreads := None\<rparr>) (\<lambda>i. 3 - i) (\<lambda>i. 1 - i)
       demo_loader demo_manager =
     loadAndParseSources demo (demo_options\<lparr>numThreads := Some 1\<rparr>) (\<lambda>i. i) (\<lambda>i. i)
       demo_loader demo_manager \<and>
   (\<exists>trees s' sm' discovered.
      loadAndParseSources demo demo_options (\<lambda>i. 3 - i) (\<lambda>i. 1 - i) demo_loader demo_manager =
        Some (Inr (trees, s', sm')) \<and>
      trees = expectedTrees demo demo_options demo_manager (fileEntries demo_loader) @ discovered)"
proof -
  let ?o = "demo_options\<lparr>singleUnit := True, librariesInheritMacros := True\<rparr>"
  let ?L = "\<lparr>syntaxTrees = [], singleUnitBuffers = [], deferredLibBuffers = [],
        inheritedMacros = [], errorList = []\<rparr>"
  note inst = threading_keeps_tree_order [where x = demo and srcOptions = ?o
      and ?when1.0 = "\<lambda>i. 3 - i" and ?when2.0 = "\<lambda>i. 1 - i"
      and entries = "fileEntries demo_loader" and L = ?L and sm = demo_manager and errs = "[]"]
  have sched: "pushLoop (\<lambda>i. 3 - i) 4 = [3, 2, 1, 0]" by code_simp
  have enough: "MinFilesForThreading demo \<le> length (fileEntries demo_loader)" by code_simp
  have "case parseSequential demo ?o (fileEntries demo_loader) ?L demo_manager of
          Inl f \<Rightarrow> False | Inr r \<Rightarrow> True"
    by code_simp
  then obtain L' sm' where run:
    "parseSequential demo ?o (fileEntries demo_loader) ?L demo_manager = Inr (L', sm')"
    by (cases "parseSequential demo ?o (fileEntries demo_loader) ?L demo_manager") auto
  with inst have order: "syntaxTrees L' = expectedTrees demo ?o demo_manager (fileEntries demo_loader)"
    by blast
  have trees: "map (map_option (\<lambda>t. (nodeMap t, isLibrary t)))
     (expectedTrees demo ?o demo_manager (fileEntries demo_loader)) =
     [Some ([''top''], False), Some ([''a''], True), Some ([''b''], True)]"
    by code_simp
  have whole: "loadAndParseSources demo (demo_options\<lparr>numThreads := None\<rparr>) (\<lambda>i. 3 - i) (\<lambda>i. 1 - i)
       demo_loader demo_manager =
     loadAndParseSources demo (demo_options\<lparr>numThreads := Some 1\<rparr>) (\<lambda>i. i) (\<lambda>i. i)
       demo_loader demo_manager"
    using threading_keeps_tree_order [where x = demo and srcOptions = demo_options
        and ?when1.0 = "\<lambda>i. 3 - i" and ?when2.0 = "\<lambda>i. 1 - i" and sm = demo_manager
        and n = None and s = demo_loader and ?when1' = "\<lambda>i. i" and ?when2' = "\<lambda>i. i"]
    by blast
  have "case loadAndParseSources demo demo_options (\<lambda>i. 3 - i) (\<lambda>i. 1 - i) demo_loader demo_manager of
          Some (Inr r) \<Rightarrow> True | _ \<Rightarrow> False"
    by code_simp
  then obtain ts s' sm'' where full:
    "loadAndParseSources demo demo_options (\<lambda>i. 3 - i) (\<lambda>i. 1 - i) demo_loader demo_manager =
       Some (Inr (ts, s', sm''))"
    by (auto split: option.splits sum.splits)
  then have "\<exists>discovered.
      ts = expectedTrees demo demo_options demo_manager (fileEntries demo_loader) @ discovered"
    using threading_keeps_tree_order [where x = demo and srcOptions = demo_options
        and ?when1.0 = "\<lambda>i. 3 - i" and ?when2.0 = "\<lambda>i. 1 - i" and sm = demo_manager
        and s = demo_loader]
    by blast
  with full have returned: "\<exists>trees s' sm' discovered.
      loadAndParseSources demo demo_options (\<lambda>i. 3 - i) (\<lambda>i. 1 - i) demo_loader demo_manager =
        Some (Inr (trees, s', sm')) \<and>
      trees = expectedTrees demo demo_options demo_manager (fileEntries demo_loader) @ discovered"
    by blast
  from inst sched enough run order trees whole returned show ?thesis by blast
qed

subsection \<open>C7: the discovery loop terminates\<close>

text \<open>Claim C7: for every finite filesystem and every loader, \<^verbatim>\<open>loadAndParseSources\<close>
  returns, and so does the discovery loop from any state; each round loads at most one file
  per missing name; a name whose search fails leaves the state of the round as it was, so
  it adds nothing to the names of the next round; when a round loads no file, in the order
  of the list of names or in the order their set yields them, the names for the next round
  are empty and the loop returns; and a name none of whose candidate paths
  is a file is searched without a file being loaded and without the loop going on for it.
  The second part also bounds the files loaded: every loaded tree is one unread file
  less.\<close>

theorem discovery_terminates:
  "(\<exists>r. loadAndParseSources x srcOptions when1 when2 s sm = Some r) \<and>
   (\<exists>r. discoverLoop x s macros names d = Some r \<and>
        length (loadedTrees r) + unread (sourceManager r) =
          length (loadedTrees d) + unread (sourceManager d)) \<and>
   length (loadedTrees (foldl (discoverName x s macros) d names)) \<le>
     length (loadedTrees d) + length names \<and>
   (fst (searchForName x (searchDirectories s) (searchExtensions s) name (sourceManager d)) = None \<longrightarrow>
      discoverName x s macros d name = d) \<and>
   (nextMissingNames d = [] \<and>
    loadedTrees (foldl (discoverName x s macros) d names) = loadedTrees d \<longrightarrow>
      discoverLoop x s macros names d = Some d) \<and>
   (nextMissingNames d = [] \<and>
    loadedTrees (foldl (discoverName x s macros) d (hashOrder x names)) = loadedTrees d \<longrightarrow>
      discoverLoop x s macros names d = Some d) \<and>
   ((\<forall>q \<in> set (candidatePaths x (searchDirectories s) (searchExtensions s) name).
        map_of (files (sourceManager d)) q = None) \<longrightarrow>
      searchForName x (searchDirectories s) (searchExtensions s) name (sourceManager d) =
        (None, sourceManager d) \<and>
      discoverName x s macros d name = d \<and>
      (nextMissingNames d = [] \<longrightarrow> discoverLoop x s macros [name] d = Some d))"
proof (intro conjI impI)
  show "\<exists>r. loadAndParseSources x srcOptions when1 when2 s sm = Some r"
  proof (cases "\<exists>e \<in> set (fileEntries s). isl (loadResultOf x srcOptions sm e)")
    case True
    then show ?thesis by (simp add: loadAndParseSources_aborts)
  next
    case False
    then have "\<forall>e \<in> set (fileEntries s). \<not> isl (loadResultOf x srcOptions sm e)" by simp
    from loadAndParseSources_returns [OF this, of when1 when2]
    show ?thesis by blast
  qed
next
  obtain r new where r: "discoverLoop x s macros names d = Some r"
    "loadedTrees r = loadedTrees d @ new"
    "length new + unread (sourceManager r) = unread (sourceManager d)"
    using discoverLoop_returns [of x s macros names d] by blast
  then show "\<exists>r. discoverLoop x s macros names d = Some r \<and>
        length (loadedTrees r) + unread (sourceManager r) =
          length (loadedTrees d) + unread (sourceManager d)"
    by (intro exI [of _ r]) simp
next
  show "length (loadedTrees (foldl (discoverName x s macros) d names)) \<le>
        length (loadedTrees d) + length names"
    using discoverRound [of x s macros d names] by auto
next
  assume "fst (searchForName x (searchDirectories s) (searchExtensions s) name (sourceManager d)) = None"
  then show "discoverName x s macros d name = d" by (rule discoverName_fail)
next
  assume a: "nextMissingNames d = [] \<and>
     loadedTrees (foldl (discoverName x s macros) d names) = loadedTrees d"
  then have "\<forall>n \<in> set names. discoverName x s macros d n = d"
    by (intro discoverRound_idle) simp
  then have "\<forall>n \<in> set (hashOrder x names). discoverName x s macros d n = d"
    by simp
  then have same: "foldl (discoverName x s macros) d (hashOrder x names) = d"
    by (rule foldl_idle)
  show "discoverLoop x s macros names d = Some d"
    using a by (subst discoverLoop.simps) (simp add: same Let_def)
next
  assume a: "nextMissingNames d = [] \<and>
     loadedTrees (foldl (discoverName x s macros) d (hashOrder x names)) = loadedTrees d"
  then have same: "foldl (discoverName x s macros) d (hashOrder x names) = d"
    using discoverRound [of x s macros d "hashOrder x names"] by auto
  show "discoverLoop x s macros names d = Some d"
    using a by (subst discoverLoop.simps) (simp add: same Let_def)
next
  assume none: "\<forall>q \<in> set (candidatePaths x (searchDirectories s) (searchExtensions s) name).
        map_of (files (sourceManager d)) q = None"
  then have "find (\<lambda>q. \<not> isCached (sourceManager d) q \<and> map_of (files (sourceManager d)) q \<noteq> None)
        (candidatePaths x (searchDirectories s) (searchExtensions s) name) = None"
    by (simp add: find_None_iff)
  then have search: "searchForName x (searchDirectories s) (searchExtensions s) name (sourceManager d) =
        (None, sourceManager d)"
    by (simp add: searchForName_acceptFirst acceptFirst_def)
  then show "searchForName x (searchDirectories s) (searchExtensions s) name (sourceManager d) =
        (None, sourceManager d)" .
  from search show same: "discoverName x s macros d name = d"
    by (simp add: discoverName_fail)
  assume "nextMissingNames d = []"
  then show "discoverLoop x s macros [name] d = Some d"
    by (subst discoverLoop.simps) (simp add: same Let_def)
qed

theorem discovery_terminates_witness:
  "(\<exists>r. loadAndParseSources demo demo_options (\<lambda>i. i) (\<lambda>i. i) demo_loader demo_manager = Some r) \<and>
   map_option (map_sum id (\<lambda>(trees, s', sm'). (map (map_option nodeMap) trees, cache sm')))
     (loadAndParseSources demo demo_options (\<lambda>i. i) (\<lambda>i. i) demo_loader demo_manager) =
     Some (Inr ([Some [''top''], Some [''a''], Some [''b''], Some [''leaf'']],
                {''top.sv'', ''a.sv'', ''b.sv'', ''lib/leaf.sv''})) \<and>
   candidatePaths demo (searchDirectories demo_loader) (searchExtensions demo_loader) ''ghost'' =
     [''lib/ghost.sv'', ''lib/ghost.v''] \<and>
   fst (searchForName demo (searchDirectories demo_loader) (searchExtensions demo_loader) ''ghost''
          demo_manager) = None \<and>
   discoverName demo demo_loader []
     \<lparr>loadedTrees = [], knownNames = {}, nextMissingNames = [], sourceManager = demo_manager\<rparr>
     ''ghost'' =
     \<lparr>loadedTrees = [], knownNames = {}, nextMissingNames = [], sourceManager = demo_manager\<rparr> \<and>
   discoverLoop demo demo_loader [] [''ghost'']
     \<lparr>loadedTrees = [], knownNames = {}, nextMissingNames = [], sourceManager = demo_manager\<rparr> =
     Some \<lparr>loadedTrees = [], knownNames = {}, nextMissingNames = [], sourceManager = demo_manager\<rparr>"
proof -
  let ?d = "\<lparr>loadedTrees = [], knownNames = {}, nextMissingNames = [], sourceManager = demo_manager\<rparr>"
  note inst = discovery_terminates [where x = demo and srcOptions = demo_options
      and ?when1.0 = "\<lambda>i. i" and ?when2.0 = "\<lambda>i. i" and s = demo_loader and sm = demo_manager
      and macros = "[]" and names = "[''ghost'']" and d = ?d and name = "''ghost''"]
  have cands: "candidatePaths demo (searchDirectories demo_loader) (searchExtensions demo_loader)
      ''ghost'' = [''lib/ghost.sv'', ''lib/ghost.v'']"
    by code_simp
  have absent: "\<forall>q \<in> set (candidatePaths demo (searchDirectories demo_loader)
      (searchExtensions demo_loader) ''ghost''). map_of (files (sourceManager ?d)) q = None"
    unfolding cands by (simp add: demo_manager_def)
  have fails: "fst (searchForName demo (searchDirectories demo_loader) (searchExtensions demo_loader)
      ''ghost'' (sourceManager ?d)) = None"
    by code_simp
  have nothing: "nextMissingNames ?d = [] \<and>
      loadedTrees (foldl (discoverName demo demo_loader []) ?d [''ghost'']) = loadedTrees ?d"
    by code_simp
  have nothing_yielded: "nextMissingNames ?d = [] \<and>
      loadedTrees (foldl (discoverName demo demo_loader []) ?d (hashOrder demo [''ghost''])) =
        loadedTrees ?d"
    by code_simp
  have run: "map_option (map_sum id (\<lambda>(trees, s', sm'). (map (map_option nodeMap) trees, cache sm')))
     (loadAndParseSources demo demo_options (\<lambda>i. i) (\<lambda>i. i) demo_loader demo_manager) =
     Some (Inr ([Some [''top''], Some [''a''], Some [''b''], Some [''leaf'']],
                {''top.sv'', ''a.sv'', ''b.sv'', ''lib/leaf.sv''}))"
    by code_simp
  note failing = inst [THEN conjunct2, THEN conjunct2, THEN conjunct2, THEN conjunct1]
  note idle = inst [THEN conjunct2, THEN conjunct2, THEN conjunct2, THEN conjunct2, THEN conjunct1]
  note yielded = inst [THEN conjunct2, THEN conjunct2, THEN conjunct2, THEN conjunct2,
      THEN conjunct2, THEN conjunct1]
  note nofile = inst [THEN conjunct2, THEN conjunct2, THEN conjunct2, THEN conjunct2,
      THEN conjunct2, THEN conjunct2]
  note same = mp [OF failing fails]
  note exits = mp [OF idle nothing]
  note exits_yielded = mp [OF yielded nothing_yielded]
  note unfound = mp [OF nofile absent]
  from inst unfound cands run fails same exits exits_yielded show ?thesis by simp
qed

subsection \<open>C8: the order of the search and the trees it loads\<close>




subsection \<open>C9: a read failure is recorded and the other entries are processed\<close>

text \<open>The read failure itself: when exactly one entry cannot be read and none of the other
  entries is a direct file loaded with macro inheritance on and single-unit mode off, the
  load result of every other entry is a tree or a buffer, the parse phase ends with exactly
  one new error record, for the path of the unreadable entry; the trees parsed at once, the
  single-unit buffers and the deferred library buffers are one per other entry; without
  single-unit mode there are as many trees as other entries; and the call returns with that
  one error record appended to the loader's errors.\<close>

lemma read_failure_is_recorded:
  assumes "i < length (fileEntries s)"
    and "map_of (files sm) (path (fileEntries s ! i)) = None"
    and "\<forall>j < length (fileEntries s). j \<noteq> i \<longrightarrow> map_of (files sm) (path (fileEntries s ! j)) \<noteq> None"
    and "\<forall>j < length (fileEntries s). j \<noteq> i \<longrightarrow>
           (librariesInheritMacros srcOptions \<and> \<not> singleUnit srcOptions \<longrightarrow>
              isLibraryFile (fileEntries s ! j))"
  shows "\<exists>L sm1 new sm'.
           parseSources x srcOptions when1 when2 s sm = Inr (L, sm1) \<and>
           errorList L = errors s @ [(path (fileEntries s ! i), no_such_file)] \<and>
           (\<forall>j < length (fileEntries s). j \<noteq> i \<longrightarrow>
              (\<exists>t. loadResultOf x srcOptions sm (fileEntries s ! j) = Inr (LoadedTree (Some t))) \<or>
              (\<exists>b d. loadResultOf x srcOptions sm (fileEntries s ! j) = Inr (LoadedBuffer b d))) \<and>
           length (eagerTrees (map (loadResultOf x srcOptions sm) (fileEntries s))) +
             length (singleUnitBuffers L) + length (deferredLibBuffers L) =
             length (fileEntries s) - 1 \<and>
           syntaxTrees L = expectedTrees x srcOptions sm (fileEntries s) \<and>
           (\<not> singleUnit srcOptions \<longrightarrow> length (syntaxTrees L) = length (fileEntries s) - 1) \<and>
           loadAndParseSources x srcOptions when1 when2 s sm =
             Some (Inr (syntaxTrees L @ new,
                        s\<lparr>errors := errors s @ [(path (fileEntries s ! i), no_such_file)]\<rparr>, sm'))"
proof -
  let ?results = "map (loadResultOf x srcOptions sm) (fileEntries s)"
  have noabort: "\<forall>e \<in> set (fileEntries s). \<not> isl (loadResultOf x srcOptions sm e)"
  proof
    fix e assume "e \<in> set (fileEntries s)"
    then obtain j where j: "j < length (fileEntries s)" "e = fileEntries s ! j"
      by (auto simp: in_set_conv_nth)
    show "\<not> isl (loadResultOf x srcOptions sm e)"
    proof (cases "j = i")
      case True
      then show ?thesis using assms(2) j by (simp add: loadResultOf_isl)
    next
      case False
      then show ?thesis using assms(4) j by (auto simp: loadResultOf_isl)
    qed
  qed
  have others: "\<forall>j < length (fileEntries s). j \<noteq> i \<longrightarrow>
      (\<exists>t. loadResultOf x srcOptions sm (fileEntries s ! j) = Inr (LoadedTree (Some t))) \<or>
      (\<exists>b d. loadResultOf x srcOptions sm (fileEntries s ! j) = Inr (LoadedBuffer b d))"
  proof (intro allI impI)
    fix j assume j: "j < length (fileEntries s)" "j \<noteq> i"
    then have "map_of (files sm) (path (fileEntries s ! j)) \<noteq> None"
      using assms(3) by simp
    moreover have "\<not> isl (loadResultOf x srcOptions sm (fileEntries s ! j))"
      using noabort j(1) by simp
    ultimately show "(\<exists>t. loadResultOf x srcOptions sm (fileEntries s ! j) = Inr (LoadedTree (Some t))) \<or>
      (\<exists>b d. loadResultOf x srcOptions sm (fileEntries s ! j) = Inr (LoadedBuffer b d))"
      by (rule loadResultOf_readable)
  qed
  have unreadable: "filter (\<lambda>e. map_of (files sm) (path e) = None) (fileEntries s) = [fileEntries s ! i]"
    using assms(1,2,3) by (intro filter_single) simp_all
  have errs: "errorsOf ?results = [(path (fileEntries s ! i), no_such_file)]"
    by (simp add: errorsOf_results unreadable)
  have "\<forall>r \<in> set ?results. \<not> isl r"
    using noabort by simp
  then have "length (eagerTrees ?results) + length (singleUnitOf ?results) +
      length (deferredOf ?results) + length (errorsOf ?results) = length ?results"
    by (rule count_results)
  then have count: "length (eagerTrees ?results) + length (singleUnitOf ?results) +
      length (deferredOf ?results) = length (fileEntries s) - 1"
    by (simp add: errs)
  obtain L new sm' where r:
    "parseSources x srcOptions when1 when2 s sm = Inr (L, afterReads sm (fileEntries s))"
    "syntaxTrees L = expectedTrees x srcOptions sm (fileEntries s)"
    "singleUnitBuffers L = singleUnitOf ?results"
    "deferredLibBuffers L = deferredOf ?results"
    "errorList L = errors s @ errorsOf ?results"
    "loadAndParseSources x srcOptions when1 when2 s sm =
       Some (Inr (syntaxTrees L @ new, s\<lparr>errors := errorList L\<rparr>, sm'))"
    using loadAndParseSources_returns [OF noabort, of when1 when2] by blast
  have trees: "\<not> singleUnit srcOptions \<longrightarrow> length (syntaxTrees L) = length (fileEntries s) - 1"
  proof
    assume "\<not> singleUnit srcOptions"
    then have "singleUnitOf ?results = []" by (rule singleUnitOf_results)
    then show "length (syntaxTrees L) = length (fileEntries s) - 1"
      using count by (simp add: r(2) length_expectedTrees)
  qed
  show ?thesis
    using r others count trees unfolding errs
    by (intro exI [of _ L] exI [of _ "afterReads sm (fileEntries s)"] exI [of _ new] exI [of _ sm'])
       simp
qed

lemma read_failure_is_recorded_example:
  "(let s = addLibraryFiles demo ''L'' ''*.sv'' (addFiles demo ''missing.sv'' (SourceLoader_init demo));
        srcOptions = demo_options\<lparr>librariesInheritMacros := True\<rparr>
    in map path (fileEntries s) = [''missing.sv'', ''a.sv'', ''b.sv''] \<and>
       map_option (map_sum id (\<lambda>(trees, s', sm'). (map (map_option nodeMap) trees, errors s')))
         (loadAndParseSources demo srcOptions (\<lambda>i. i) (\<lambda>i. i) s demo_manager) =
         Some (Inr ([Some [''a''], Some [''b'']], [(''missing.sv'', 2)])))"
  by code_simp


end
